theory Spec2Isabelle
  imports Complex_Main "HOL-Library.Word" "HOL-Library.AList"
begin

unbundle bit_operations_syntax

section \<open>Shared vocabulary\<close>

text \<open>
  The button vocabulary of \<^verbatim>\<open>lib/types/emulator.ts\<close> (\<^verbatim>\<open>GBAButton\<close>), in the key order of
  \<^verbatim>\<open>confidenceScoresSchema\<close>. Confidence values are JavaScript numbers; they are only
  compared and copied, so they are modelled as rationals (the decimal a number denotes).
\<close>

datatype button =
  Btn_A | Btn_B | Btn_START | Btn_SELECT | Btn_UP | Btn_DOWN | Btn_LEFT | Btn_RIGHT
  | Btn_L | Btn_R | Btn_WAIT

text \<open>
  An exception thrown by a backend or model call. \<^verbatim>\<open>try { ... } catch { ... }\<close> is
  \<open>try_catch\<close>; sequencing of calls that may throw is \<open>bind_e\<close>.
\<close>

datatype error = BackendError | ModelError | SchemaViolation | Timeout

definition bind_e :: "error + 'a \<Rightarrow> ('a \<Rightarrow> error + 'b) \<Rightarrow> error + 'b" where
  "bind_e m k = (case m of Inl e \<Rightarrow> Inl e | Inr v \<Rightarrow> k v)"

definition try_catch :: "error + 'a \<Rightarrow> (error \<Rightarrow> error + 'a) \<Rightarrow> error + 'a" where
  "try_catch body handler = (case body of Inl e \<Rightarrow> handler e | Inr v \<Rightarrow> Inr v)"

section \<open>Memory store (lib/memstash.ts)\<close>

text \<open>
  A field of \<^verbatim>\<open>StructuredNotes\<close> is absent (\<^verbatim>\<open>undefined\<close>), \<^verbatim>\<open>null\<close> or a value.
  Notes objects reach the store through JSON, so a key is present exactly when its value
  is not \<^verbatim>\<open>undefined\<close>.
\<close>

datatype 'a js = Undefined | Null | Val 'a

datatype stuck_mode = Mode_none | Mode_perimeter_scan | Mode_wall_hug | Mode_backtrack

record structured_notes =
  currentObjective :: "string js"
  lastKnownLocation :: "string js"
  exitFound :: "string js"
  stuckMode :: "stuck_mode js"
  failedAttempts :: "string list js"
  importantDiscovery :: "string js"
  general :: "string js"
  legacyText :: "string option"

definition empty_notes :: structured_notes where
  "empty_notes = \<lparr> currentObjective = Undefined, lastKnownLocation = Undefined,
     exitFound = Undefined, stuckMode = Undefined, failedAttempts = Undefined,
     importantDiscovery = Undefined, general = Undefined, legacyText = None \<rparr>"

definition MEMSTASH_PROMPT_LIMIT :: nat where
  "MEMSTASH_PROMPT_LIMIT = 1000"

definition MEMSTASH_MAX_TOTAL :: nat where
  "MEMSTASH_MAX_TOTAL = 5000"

record log_entry =
  step :: nat
  log_button :: button
  log_reasoning :: string
  timestamp :: nat

text \<open>
  The two keys of one agent in the key-value store: \<^verbatim>\<open>agent:{id}:memstash\<close> holds
  nothing, a legacy string or a notes object; \<^verbatim>\<open>agent:{id}:decisionlog\<close> holds
  nothing or an array of entries.
\<close>

datatype stored_notes = No_content | Legacy_string string | Structured structured_notes

record backend =
  memstash :: stored_notes
  decisionlog :: "log_entry list option"

text \<open>
  Which of the backend calls made by one operation throw. Each operation makes at most
  one \<^verbatim>\<open>get\<close>, one \<^verbatim>\<open>set\<close> and one \<^verbatim>\<open>del\<close>. A call that throws has no effect
  on the store.
\<close>

record faults =
  get_fails :: bool
  set_fails :: bool
  del_fails :: bool

definition no_faults :: faults where
  "no_faults = \<lparr> get_fails = False, set_fails = False, del_fails = False \<rparr>"

definition redis_get_memstash :: "faults \<Rightarrow> backend \<Rightarrow> error + stored_notes" where
  "redis_get_memstash f st = (if get_fails f then Inl BackendError else Inr (memstash st))"

definition redis_set_memstash :: "faults \<Rightarrow> structured_notes \<Rightarrow> backend \<Rightarrow> error + backend" where
  "redis_set_memstash f n st =
     (if set_fails f then Inl BackendError else Inr (st\<lparr>memstash := Structured n\<rparr>))"

definition redis_del_memstash :: "faults \<Rightarrow> backend \<Rightarrow> error + backend" where
  "redis_del_memstash f st =
     (if del_fails f then Inl BackendError else Inr (st\<lparr>memstash := No_content\<rparr>))"

definition redis_get_decisionlog :: "faults \<Rightarrow> backend \<Rightarrow> error + log_entry list option" where
  "redis_get_decisionlog f st =
     (if get_fails f then Inl BackendError else Inr (decisionlog st))"

definition redis_set_decisionlog ::
  "faults \<Rightarrow> log_entry list \<Rightarrow> backend \<Rightarrow> error + backend" where
  "redis_set_decisionlog f l st =
     (if set_fails f then Inl BackendError else Inr (st\<lparr>decisionlog := Some l\<rparr>))"

definition redis_del_decisionlog :: "faults \<Rightarrow> backend \<Rightarrow> error + backend" where
  "redis_del_decisionlog f st =
     (if del_fails f then Inl BackendError else Inr (st\<lparr>decisionlog := None\<rparr>))"

subsection \<open>String helpers of the JavaScript runtime\<close>

text \<open>
  A JavaScript string is modelled as a list of 8-bit characters: the notes and the
  base64 payloads handled here are taken to stay in that range, and \<open>length\<close> counts
  characters as \<^verbatim>\<open>.length\<close> does.
\<close>

fun join :: "string \<Rightarrow> string list \<Rightarrow> string" where
  "join sep [] = []"
| "join sep [x] = x"
| "join sep (x # y # ys) = x @ sep @ join sep (y # ys)"

fun split_on :: "char \<Rightarrow> string \<Rightarrow> string list" where
  "split_on c [] = [[]]"
| "split_on c (x # xs) =
     (if x = c then [] # split_on c xs
      else (case split_on c xs of [] \<Rightarrow> [[x]] | l # ls \<Rightarrow> (x # l) # ls))"

definition newline :: char where
  "newline = CHR 0x0A"

definition is_space :: "char \<Rightarrow> bool" where
  "is_space c = (of_char c \<in> {9::nat, 10, 11, 12, 13, 32, 160})"

definition trim :: "string \<Rightarrow> string" where
  "trim s = rev (dropWhile is_space (rev (dropWhile is_space s)))"

text \<open>\<^verbatim>\<open>s.lastIndexOf(c)\<close>: the last position of \<open>c\<close>, or \<open>-1\<close>.\<close>

fun lastIndexOf :: "char \<Rightarrow> string \<Rightarrow> int" where
  "lastIndexOf c [] = -1"
| "lastIndexOf c (x # xs) =
     (let r = lastIndexOf c xs in
      if r \<ge> 0 then r + 1 else if x = c then 0 else -1)"

text \<open>\<^verbatim>\<open>xs.slice(-n)\<close> for \<open>n > 0\<close>: the last \<open>n\<close> elements.\<close>

definition slice_last :: "nat \<Rightarrow> 'a list \<Rightarrow> 'a list" where
  "slice_last n xs = drop (length xs - n) xs"

subsection \<open>Notes\<close>

definition getStructuredNotes :: "faults \<Rightarrow> backend \<Rightarrow> error + structured_notes" where
  "getStructuredNotes f st =
     try_catch
       (bind_e (redis_get_memstash f st) (\<lambda>content.
          case content of
            No_content \<Rightarrow> Inr empty_notes
          | Structured n \<Rightarrow> Inr n
          | Legacy_string s \<Rightarrow>
              if s = [] then Inr empty_notes else Inr (empty_notes\<lparr>legacyText := Some s\<rparr>)))
       (\<lambda>_. Inr empty_notes)"

definition truthy :: "string js \<Rightarrow> bool" where
  "truthy v = (case v of Val s \<Rightarrow> s \<noteq> [] | _ \<Rightarrow> False)"

definition str_of :: "string js \<Rightarrow> string" where
  "str_of v = (case v of Val s \<Rightarrow> s | _ \<Rightarrow> [])"

definition stuck_mode_name :: "stuck_mode \<Rightarrow> string" where
  "stuck_mode_name m = (case m of Mode_none \<Rightarrow> ''none''
     | Mode_perimeter_scan \<Rightarrow> ''perimeter_scan''
     | Mode_wall_hug \<Rightarrow> ''wall_hug''
     | Mode_backtrack \<Rightarrow> ''backtrack'')"

definition formatNotesForPrompt :: "structured_notes \<Rightarrow> string" where
  "formatNotesForPrompt n =
     join [newline]
      ((if truthy (currentObjective n) then [''Objective: '' @ str_of (currentObjective n)] else [])
       @ (if truthy (lastKnownLocation n) then [''Location: '' @ str_of (lastKnownLocation n)] else [])
       @ (if truthy (exitFound n) then [''Exit: '' @ str_of (exitFound n)] else [])
       @ (case stuckMode n of
            Val m \<Rightarrow> if m \<noteq> Mode_none then [''Recovery mode: '' @ stuck_mode_name m] else []
          | _ \<Rightarrow> [])
       @ (case failedAttempts n of
            Val fa \<Rightarrow> if fa \<noteq> [] then [''Failed: '' @ join '', '' fa] else []
          | _ \<Rightarrow> [])
       @ (if truthy (importantDiscovery n) then [''Important: '' @ str_of (importantDiscovery n)] else [])
       @ (if truthy (general n) then [''Notes: '' @ str_of (general n)] else [])
       @ (case legacyText n of Some s \<Rightarrow> if s \<noteq> [] then [s] else [] | None \<Rightarrow> []))"

definition getMemStash :: "faults \<Rightarrow> backend \<Rightarrow> error + string" where
  "getMemStash f st =
     try_catch
       (bind_e (redis_get_memstash f st) (\<lambda>content.
          case content of
            No_content \<Rightarrow> Inr []
          | Structured n \<Rightarrow> Inr (formatNotesForPrompt n)
          | Legacy_string s \<Rightarrow> Inr s))
       (\<lambda>_. Inr [])"

text \<open>\<^verbatim>\<open>Object.keys(newNotes).length === 0\<close>.\<close>

definition no_keys :: "structured_notes \<Rightarrow> bool" where
  "no_keys n \<longleftrightarrow>
     currentObjective n = Undefined \<and> lastKnownLocation n = Undefined
     \<and> exitFound n = Undefined \<and> stuckMode n = Undefined \<and> failedAttempts n = Undefined
     \<and> importantDiscovery n = Undefined \<and> general n = Undefined \<and> legacyText n = None"

definition overwrite :: "'a js \<Rightarrow> 'a js \<Rightarrow> 'a js" where
  "overwrite new old = (if new \<noteq> Undefined then new else old)"

text \<open>\<^verbatim>\<open>merged.failedAttempts || []\<close>.\<close>

definition attempts_of :: "structured_notes \<Rightarrow> string list" where
  "attempts_of n = (case failedAttempts n of Val ea \<Rightarrow> ea | _ \<Rightarrow> [])"

definition merge_fields :: "structured_notes \<Rightarrow> structured_notes \<Rightarrow> structured_notes" where
  "merge_fields existing newNotes =
     (let merged = existing\<lparr>
            currentObjective := overwrite (currentObjective newNotes) (currentObjective existing),
            lastKnownLocation := overwrite (lastKnownLocation newNotes) (lastKnownLocation existing),
            exitFound := overwrite (exitFound newNotes) (exitFound existing),
            stuckMode := overwrite (stuckMode newNotes) (stuckMode existing),
            importantDiscovery := overwrite (importantDiscovery newNotes) (importantDiscovery existing),
            general := overwrite (general newNotes) (general existing)\<rparr>
      in case failedAttempts newNotes of
           Val fa \<Rightarrow>
             if fa \<noteq> [] then
               (let existingAttempts = attempts_of merged
                in merged\<lparr>failedAttempts := Val (slice_last 5 (existingAttempts @ fa))\<rparr>)
             else merged
         | _ \<Rightarrow> merged)"

definition mergeStructuredNotes :: "faults \<Rightarrow> structured_notes \<Rightarrow> backend \<Rightarrow> error + backend" where
  "mergeStructuredNotes f newNotes st =
     (if no_keys newNotes then Inr st
      else try_catch
             (bind_e (getStructuredNotes f st) (\<lambda>existing.
                redis_set_memstash f (merge_fields existing newNotes) st))
             (\<lambda>_. Inr st))"

text \<open>
  The \<^verbatim>\<open>while\<close> loop of the legacy branch of \<^verbatim>\<open>appendMemStash\<close>: drop the last line
  while the text is too long and more than one line is left.
\<close>

function drop_lines :: "string list \<Rightarrow> string \<Rightarrow> string" where
  "drop_lines lines updated =
     (if length updated > MEMSTASH_MAX_TOTAL \<and> length lines > 1
      then drop_lines (butlast lines) (join [newline] (butlast lines))
      else updated)"
  by pat_completeness auto
termination
  by (relation "measure (\<lambda>(lines, updated). length lines)") auto

declare drop_lines.simps [simp del]

definition legacy_update :: "string \<Rightarrow> string \<Rightarrow> structured_notes \<Rightarrow> string" where
  "legacy_update ts content existing =
     (let newEntry = ''['' @ ts @ ''] '' @ trim content;
          legacy = (case legacyText existing of Some s \<Rightarrow> s | None \<Rightarrow> []);
          updated = (if legacy \<noteq> [] then newEntry @ [newline] @ legacy else newEntry)
      in if length updated > MEMSTASH_MAX_TOTAL
         then drop_lines (split_on newline updated) updated
         else updated)"

text \<open>
  \<^verbatim>\<open>appendMemStash(agentId, content: string | StructuredNotes)\<close>; \<open>ts\<close> is the
  \<^verbatim>\<open>HH:MM:SS\<close> slice of the current time.
\<close>

datatype memstash_content = Text string | Delta structured_notes

definition appendMemStash ::
  "faults \<Rightarrow> string \<Rightarrow> memstash_content \<Rightarrow> backend \<Rightarrow> error + backend" where
  "appendMemStash f ts content st =
     (case content of
        Delta n \<Rightarrow> mergeStructuredNotes f n st
      | Text s \<Rightarrow>
          if s = [] \<or> trim s = [] then Inr st
          else try_catch
                 (bind_e (getStructuredNotes f st) (\<lambda>existing.
                    redis_set_memstash f
                      (existing\<lparr>legacyText := Some (legacy_update ts s existing)\<rparr>) st))
                 (\<lambda>_. Inr st))"

definition clearMemStash :: "faults \<Rightarrow> backend \<Rightarrow> error + backend" where
  "clearMemStash f st = try_catch (redis_del_memstash f st) (\<lambda>_. Inr st)"

definition getMemStashForPrompt :: "faults \<Rightarrow> backend \<Rightarrow> error + string" where
  "getMemStashForPrompt f st =
     bind_e (getMemStash f st) (\<lambda>content.
       if content = [] then Inr []
       else if length content \<le> MEMSTASH_PROMPT_LIMIT then Inr content
       else (let truncated = take MEMSTASH_PROMPT_LIMIT content;
                 lastNewline = lastIndexOf newline truncated
             in if lastNewline > int MEMSTASH_PROMPT_LIMIT - 100
                then Inr (take (nat lastNewline) truncated)
                else Inr truncated))"

subsection \<open>Decision log\<close>

definition getDecisionLog :: "faults \<Rightarrow> backend \<Rightarrow> error + log_entry list" where
  "getDecisionLog f st =
     try_catch
       (bind_e (redis_get_decisionlog f st) (\<lambda>log.
          Inr (case log of Some l \<Rightarrow> l | None \<Rightarrow> [])))
       (\<lambda>_. Inr [])"

text \<open>
  \<^verbatim>\<open>appendDecisionLog\<close> returns the assigned step number (\<open>0\<close> from the
  \<^verbatim>\<open>catch\<close> branch) together with the store; \<open>now\<close> is \<^verbatim>\<open>Date.now()\<close>.
\<close>

definition appendDecisionLog ::
  "faults \<Rightarrow> nat \<Rightarrow> button \<times> string \<Rightarrow> backend \<Rightarrow> error + (nat \<times> backend)" where
  "appendDecisionLog f now decision st =
     try_catch
       (bind_e (getDecisionLog f st) (\<lambda>log.
          let stp = length log + 1;
              log' = log @ [\<lparr> step = stp, log_button = fst decision,
                              log_reasoning = snd decision, timestamp = now \<rparr>];
              trimmed = slice_last 500 log'
          in bind_e (redis_set_decisionlog f trimmed st) (\<lambda>st'. Inr (stp, st'))))
       (\<lambda>_. Inr (0, st))"

definition clearDecisionLog :: "faults \<Rightarrow> backend \<Rightarrow> error + backend" where
  "clearDecisionLog f st = try_catch (redis_del_decisionlog f st) (\<lambda>_. Inr st)"

section \<open>Decision step (lib/workflows/game-loop/steps.ts)\<close>

text \<open>
  A per-button confidence table is the list of its \<^verbatim>\<open>Object.entries\<close>, in key order.
  An element of \<^verbatim>\<open>buttonSequence\<close> is such a table, or \<open>None\<close> when it is
  \<^verbatim>\<open>null\<close> or not an object. Every value is a number, so the test
  \<^verbatim>\<open>typeof score === 'number'\<close> of the reducer is true.
\<close>

type_synonym scores = "(button \<times> rat) list"

record usage =
  promptTokens :: nat
  completionTokens :: nat
  totalTokens :: nat

record ai_decision =
  button :: button
  reasoning :: string
  screenAnalysis :: "string option"
  confidence :: rat
  personality_comment :: "string option"
  confidenceScores :: scores
  progressConfidence :: rat
  buttonSequence :: "(button \<times> rat) list option"
  decided_at :: nat
  isFallback :: bool

text \<open>
  \<^verbatim>\<open>GameLoopOutput\<close>. Its \<^verbatim>\<open>gameState\<close> component is copied from the model's answer
  (or is the initial game state in the fallback) and takes no part in what follows; it
  is left out.
\<close>

record game_loop_output =
  decision :: ai_decision
  usage :: usage

text \<open>The object returned by \<^verbatim>\<open>generateObject\<close> once it has passed the schema.\<close>

record model_decision =
  m_screenAnalysis :: string
  m_reasoning :: string
  m_personality_comment :: "string option"
  m_buttonSequence :: "scores option list"
  m_progressConfidence :: rat
  m_notes :: "structured_notes option"

record model_result =
  object_decision :: model_decision
  result_usage :: "usage option"

definition SEQUENCE_THRESHOLD :: rat where
  "SEQUENCE_THRESHOLD = 85 / 100"

definition fallback_scores :: scores where
  "fallback_scores =
     [(Btn_A, 2 / 10), (Btn_B, 2 / 10), (Btn_START, 1 / 10), (Btn_SELECT, 1 / 10),
      (Btn_UP, 2 / 10), (Btn_DOWN, 2 / 10), (Btn_LEFT, 2 / 10), (Btn_RIGHT, 2 / 10),
      (Btn_L, 1 / 10), (Btn_R, 1 / 10), (Btn_WAIT, 5 / 10)]"

definition createFallbackDecision :: "nat \<Rightarrow> nat \<Rightarrow> game_loop_output" where
  "createFallbackDecision estimatedPromptTokens now =
     \<lparr> decision =
         \<lparr> button = Btn_WAIT,
           reasoning = ''Fallback: waiting due to parsing error - no action taken'',
           screenAnalysis = None,
           confidence = 5 / 10,
           personality_comment = Some [],
           confidenceScores = fallback_scores,
           progressConfidence = 3 / 10,
           buttonSequence = Some [(Btn_WAIT, 5 / 10)],
           decided_at = now,
           isFallback = True \<rparr>,
       usage = \<lparr> promptTokens = estimatedPromptTokens, completionTokens = 100,
                 totalTokens = estimatedPromptTokens + 100 \<rparr> \<rparr>"

text \<open>The \<^verbatim>\<open>reduce\<close> that picks the best entry of one step, starting from \<^verbatim>\<open>{A, -1}\<close>.\<close>

definition pick_best :: "scores \<Rightarrow> button \<times> rat" where
  "pick_best entries =
     foldl (\<lambda>b (btn, score). if score > snd b then (btn, score) else b) (Btn_A, - 1) entries"

text \<open>
  The \<^verbatim>\<open>for\<close> loop over \<^verbatim>\<open>buttonSequence\<close>; \<open>acc\<close> is \<^verbatim>\<open>buttonsToExecute\<close>.
  \<^verbatim>\<open>continue\<close> goes on with the rest, \<^verbatim>\<open>break\<close> returns what was collected.
\<close>

fun build_sequence :: "scores option list \<Rightarrow> (button \<times> rat) list \<Rightarrow> (button \<times> rat) list" where
  "build_sequence [] acc = acc"
| "build_sequence (None # rest) acc = build_sequence rest acc"
| "build_sequence (Some entries # rest) acc =
     (if entries = [] then build_sequence rest acc
      else (let best = pick_best entries in
            if acc = [] \<or> snd best \<ge> SEQUENCE_THRESHOLD
            then build_sequence rest (acc @ [best])
            else acc))"

text \<open>\<^verbatim>\<open>buttonSequence[i] || {}\<close>: the table of a step, empty when the step is missing.\<close>

definition table_of :: "scores option \<Rightarrow> scores" where
  "table_of s = (case s of Some e \<Rightarrow> e | None \<Rightarrow> [])"

definition usage_of :: "usage option \<Rightarrow> usage" where
  "usage_of u = (case u of Some v \<Rightarrow> v
     | None \<Rightarrow> \<lparr> promptTokens = 0, completionTokens = 0, totalTokens = 0 \<rparr>)"

text \<open>
  \<^verbatim>\<open>analyzeFrameAndDecide\<close> from the call of \<^verbatim>\<open>generateObject\<close> on. \<open>generated\<close> is
  what that call did: it threw (a model error, a schema violation or the 60 s timeout)
  or it returned an object. \<open>fn\<close> and \<open>fl\<close> say which backend calls of the notes merge
  and of the log append throw. The \<^verbatim>\<open>catch\<close> branch returns the fallback decision.
\<close>

definition analyzeFrameAndDecide ::
  "faults \<Rightarrow> faults \<Rightarrow> string \<Rightarrow> nat \<Rightarrow> error + model_result \<Rightarrow> backend
     \<Rightarrow> error + (game_loop_output \<times> backend)" where
  "analyzeFrameAndDecide fn fl ts now generated st =
     try_catch
       (bind_e generated (\<lambda>result.
          let d = object_decision result;
              buttonSequence = m_buttonSequence d
          in if buttonSequence = [] then Inr (createFallbackDecision 1500 now, st)
             else
               (let buttonsToExecute = build_sequence buttonSequence []
                in if buttonsToExecute = [] then Inr (createFallbackDecision 1500 now, st)
                   else
                     (let primaryButton = hd buttonsToExecute;
                          firstScores = table_of (hd buttonSequence)
                      in bind_e (case m_notes d of
                                   Some n \<Rightarrow> appendMemStash fn ts (Delta n) st
                                 | None \<Rightarrow> Inr st) (\<lambda>st1.
                         bind_e (appendDecisionLog fl now (fst primaryButton, m_reasoning d) st1)
                           (\<lambda>(stp, st2).
                             Inr (\<lparr> decision =
                                      \<lparr> button = fst primaryButton,
                                        reasoning = m_reasoning d,
                                        screenAnalysis = Some (m_screenAnalysis d),
                                        confidence = snd primaryButton,
                                        personality_comment = m_personality_comment d,
                                        confidenceScores = firstScores,
                                        progressConfidence = m_progressConfidence d,
                                        buttonSequence = Some buttonsToExecute,
                                        decided_at = now,
                                        isFallback = False \<rparr>,
                                    usage = usage_of (result_usage result) \<rparr>, st2)))))))
       (\<lambda>_. Inr (createFallbackDecision 1500 now, st))"

text \<open>
  What the schema of the decision phase accepts for one step: an object with exactly the
  eleven button keys, each a number in \<open>[0, 1]\<close>; and for the sequence: at least one step.
\<close>

definition all_buttons :: "button list" where
  "all_buttons = [Btn_A, Btn_B, Btn_START, Btn_SELECT, Btn_UP, Btn_DOWN, Btn_LEFT,
                  Btn_RIGHT, Btn_L, Btn_R, Btn_WAIT]"

definition schema_step :: "scores option \<Rightarrow> bool" where
  "schema_step s = (case s of None \<Rightarrow> False
     | Some e \<Rightarrow> distinct (map fst e) \<and> set (map fst e) = set all_buttons
                 \<and> list_all (\<lambda>(b, v). 0 \<le> v \<and> v \<le> 1) e)"

definition schema_accepts :: "model_result \<Rightarrow> bool" where
  "schema_accepts r \<longleftrightarrow>
     m_buttonSequence (object_decision r) \<noteq> []
     \<and> list_all schema_step (m_buttonSequence (object_decision r))
     \<and> 0 \<le> m_progressConfidence (object_decision r)
     \<and> m_progressConfidence (object_decision r) \<le> 1"

section \<open>Frame fingerprint (lib/game-knowledge.ts)\<close>

text \<open>\<^verbatim>\<open>dataUrl.split(',')[1] || ''\<close>: the part after the first comma.\<close>

definition payload :: "string \<Rightarrow> string" where
  "payload dataUrl = (case split_on CHR '','' dataUrl of _ # p # _ \<Rightarrow> p | _ \<Rightarrow> [])"

text \<open>
  The loop of \<^verbatim>\<open>simpleFrameHash\<close>. \<^verbatim>\<open>hash << 5\<close> and \<^verbatim>\<open>hash & hash\<close> bring the
  number back to 32 bits, and the sum in between is exact, so \<open>hash\<close> is a 32-bit word
  with wrapping arithmetic. \<^verbatim>\<open>charCodeAt(i)\<close> is the code of the character at \<open>i\<close>.
\<close>

function hash_loop :: "string \<Rightarrow> nat \<Rightarrow> 32 word \<Rightarrow> 32 word" where
  "hash_loop base64 i hash =
     (if i < length base64
      then hash_loop base64 (i + 1000)
             ((push_bit 5 hash - hash) + of_nat (of_char (base64 ! i)))
      else hash)"
  by pat_completeness auto
termination
  by (relation "measure (\<lambda>(base64, i, hash). length base64 - i)") auto

declare hash_loop.simps [simp del]

text \<open>\<^verbatim>\<open>hash.toString(16)\<close> of a signed 32-bit number.\<close>

definition hex_digit :: "nat \<Rightarrow> char" where
  "hex_digit n = ''0123456789abcdef'' ! n"

function to_hex :: "nat \<Rightarrow> string" where
  "to_hex n = (if n < 16 then [hex_digit n] else to_hex (n div 16) @ [hex_digit (n mod 16)])"
  by pat_completeness auto
termination
  by (relation "measure (\<lambda>n. n)") auto

declare to_hex.simps [simp del]

definition toString16 :: "int \<Rightarrow> string" where
  "toString16 i = (if i < 0 then CHR ''-'' # to_hex (nat (- i)) else to_hex (nat i))"

definition simpleFrameHash :: "string \<Rightarrow> string" where
  "simpleFrameHash dataUrl = toString16 (sint (hash_loop (payload dataUrl) 0 0))"

section \<open>Loop coordinator (components/agent/agent-card.tsx)\<close>

datatype visual_change = First_frame | Change_detected | No_change

record frame_history_entry =
  fh_button :: button
  fh_reasoning :: string
  fh_timestamp :: nat
  frameHash :: string
  visualChange :: visual_change

text \<open>
  The heuristic state of one \<^verbatim>\<open>AgentCard\<close>: the refs and the React state that
  \<^verbatim>\<open>processFrame\<close> reads and writes between prompts. The two counter records
  (\<^verbatim>\<open>noChangeCountRef\<close>, \<^verbatim>\<open>buttonPressCountRef\<close>) are only read through \<^verbatim>\<open>|| 0\<close>, so a
  missing key is the count \<open>0\<close>. \<^verbatim>\<open>bannedButtons\<close> keeps its keys in insertion order.
\<close>

record card_state =
  frameHistory :: "frame_history_entry list"
  lastFrameHashRef :: "string option"
  cardConfidenceScores :: scores
  lastButtonRef :: "button option"
  noChangeCountRef :: "button \<Rightarrow> nat"
  buttonsToAvoid :: "button list"
  bannedButtons :: "(button \<times> nat) list"
  buttonPressCountRef :: "button \<Rightarrow> nat"
  consecutiveStartSelectCount :: nat
  consecutiveWaitCount :: nat
  consecutiveBCount :: nat

definition DEFAULT_CONFIDENCE_SCORES :: scores where
  "DEFAULT_CONFIDENCE_SCORES = map (\<lambda>b. (b, 1 / 2)) all_buttons"

text \<open>The state of a fresh card, and the state \<^verbatim>\<open>handleReset\<close> puts back.\<close>

definition initial_card :: card_state where
  "initial_card =
     \<lparr> frameHistory = [], lastFrameHashRef = None,
       cardConfidenceScores = DEFAULT_CONFIDENCE_SCORES, lastButtonRef = None,
       noChangeCountRef = (\<lambda>_. 0), buttonsToAvoid = [], bannedButtons = [],
       buttonPressCountRef = (\<lambda>_. 0), consecutiveStartSelectCount = 0,
       consecutiveWaitCount = 0, consecutiveBCount = 0 \<rparr>"

definition handleReset :: "card_state \<Rightarrow> card_state" where
  "handleReset s = initial_card"

text \<open>The heuristic fields of the body posted to \<^verbatim>\<open>/api/agent/decide\<close>.\<close>

record decide_request =
  previousConfidenceScores :: scores
  avoidStartSelect :: bool
  avoidWait :: bool
  avoidB :: bool
  req_buttonsToAvoid :: "button list"
  req_bannedButtons :: "button list"

definition build_request :: "card_state \<Rightarrow> decide_request" where
  "build_request s =
     \<lparr> previousConfidenceScores = cardConfidenceScores s,
       avoidStartSelect = (consecutiveStartSelectCount s > 2),
       avoidWait = (consecutiveWaitCount s \<ge> 3),
       avoidB = (consecutiveBCount s \<ge> 5),
       req_buttonsToAvoid = buttonsToAvoid s,
       req_bannedButtons = map fst (filter (\<lambda>(b, c). c > 0) (bannedButtons s)) \<rparr>"

definition is_valid_frame :: "string option \<Rightarrow> bool" where
  "is_valid_frame frame = (case frame of None \<Rightarrow> False
     | Some fr \<Rightarrow> take 11 fr = ''data:image/'' \<and> length fr > 1000)"

definition classify_change :: "string option \<Rightarrow> string \<Rightarrow> visual_change" where
  "classify_change lastHash currentHash =
     (case lastHash of None \<Rightarrow> First_frame
      | Some h \<Rightarrow> if h = currentHash then No_change else Change_detected)"

text \<open>
  The block "update confidence scores and track buttons to avoid". A decision always
  carries its table, so the test \<^verbatim>\<open>if (data.decision.confidenceScores)\<close> holds.
\<close>

definition update_scores :: "visual_change \<Rightarrow> ai_decision \<Rightarrow> card_state \<Rightarrow> card_state" where
  "update_scores vc d s =
     (let newScores = confidenceScores d in
      case lastButtonRef s of
        None \<Rightarrow> s\<lparr>cardConfidenceScores := newScores\<rparr>
      | Some btn \<Rightarrow>
          if vc = No_change then
            (let count = noChangeCountRef s btn + 1;
                 newScores' = (if count \<ge> 5 then AList.update btn (2 / 10) newScores
                               else newScores);
                 avoid = (if count \<ge> 1 \<and> count < 5 \<and> btn \<notin> set (buttonsToAvoid s)
                          then buttonsToAvoid s @ [btn] else buttonsToAvoid s)
             in s\<lparr>noChangeCountRef := (noChangeCountRef s)(btn := count),
                  buttonsToAvoid := avoid,
                  cardConfidenceScores := newScores'\<rparr>)
          else if vc = Change_detected then
            s\<lparr>noChangeCountRef :=
                 (if noChangeCountRef s btn \<noteq> 0 then (noChangeCountRef s)(btn := 0)
                  else noChangeCountRef s),
               buttonsToAvoid := filter (\<lambda>b. b \<noteq> btn) (buttonsToAvoid s),
               cardConfidenceScores := newScores\<rparr>
          else s\<lparr>cardConfidenceScores := newScores\<rparr>)"

text \<open>The block "track consecutive button presses for spam prevention".\<close>

definition track_consecutive :: "button \<Rightarrow> card_state \<Rightarrow> card_state" where
  "track_consecutive b s =
     (if b = Btn_START \<or> b = Btn_SELECT then
        s\<lparr>consecutiveStartSelectCount := consecutiveStartSelectCount s + 1,
          consecutiveWaitCount := 0, consecutiveBCount := 0\<rparr>
      else if b = Btn_WAIT then
        s\<lparr>consecutiveWaitCount := consecutiveWaitCount s + 1,
          consecutiveStartSelectCount := 0, consecutiveBCount := 0\<rparr>
      else if b = Btn_B then
        s\<lparr>consecutiveBCount := consecutiveBCount s + 1,
          consecutiveStartSelectCount := 0, consecutiveWaitCount := 0\<rparr>
      else
        s\<lparr>consecutiveStartSelectCount := 0, consecutiveWaitCount := 0,
          consecutiveBCount := 0\<rparr>)"

text \<open>
  The loop that executes the button sequence: counts each press and bans a button whose
  count has reached ten.
\<close>

fun press_buttons :: "(button \<times> rat) list \<Rightarrow> card_state \<Rightarrow> card_state" where
  "press_buttons [] s = s"
| "press_buttons (stp # rest) s =
     (let btn = fst stp;
          n = buttonPressCountRef s btn + 1;
          s1 = s\<lparr>buttonPressCountRef := (buttonPressCountRef s)(btn := n)\<rparr>;
          s2 = (if n \<ge> 10
                then s1\<lparr>bannedButtons := AList.update btn 2 (bannedButtons s1),
                        buttonPressCountRef := (buttonPressCountRef s1)(btn := 0)\<rparr>
                else s1)
      in press_buttons rest s2)"

text \<open>"Decrement banned buttons counter after each prompt."\<close>

definition decrement_banned :: "(button \<times> nat) list \<Rightarrow> (button \<times> nat) list" where
  "decrement_banned prev = map (\<lambda>(btn, count). (btn, count - 1)) (filter (\<lambda>(btn, count). count > 1) prev)"

text \<open>
  One call of \<^verbatim>\<open>processFrame\<close> on a running card that is not already processing.
  \<open>response\<close> is what the decide request gave: an exception (network error, status
  outside 2xx, abort), which leaves the heuristic state as it is, or the decision.
  \<open>now\<close> is \<^verbatim>\<open>Date.now()\<close>.
\<close>

definition processFrame ::
  "nat \<Rightarrow> string option \<Rightarrow> error + ai_decision \<Rightarrow> card_state \<Rightarrow> card_state" where
  "processFrame now frame response s =
     (if \<not> is_valid_frame frame then s
      else case (frame, response) of
        (Some fr, Inr d) \<Rightarrow>
          (let currentHash = simpleFrameHash fr;
               vc = classify_change (lastFrameHashRef s) currentHash;
               s1 = s\<lparr>lastFrameHashRef := Some currentHash,
                      frameHistory := slice_last 24 (frameHistory s) @
                        [\<lparr> fh_button = button d, fh_reasoning = take 200 (reasoning d),
                           fh_timestamp = now, frameHash = currentHash,
                           visualChange = vc \<rparr>]\<rparr>;
               s2 = update_scores vc d s1;
               s3 = s2\<lparr>lastButtonRef := Some (button d)\<rparr>;
               s4 = track_consecutive (button d) s3;
               seq = (case buttonSequence d of Some steps \<Rightarrow> steps
                      | None \<Rightarrow> [(button d, confidence d)]);
               s5 = press_buttons seq s4
           in s5\<lparr>bannedButtons := decrement_banned (bannedButtons s5)\<rparr>)
      | _ \<Rightarrow> s)"

text \<open>A run of the card: one \<^verbatim>\<open>processFrame\<close> per captured frame, in order.\<close>

fun run_card :: "(nat \<times> string option \<times> (error + ai_decision)) list \<Rightarrow> card_state \<Rightarrow> card_state" where
  "run_card [] s = s"
| "run_card ((now, frame, response) # rest) s = run_card rest (processFrame now frame response s)"

section \<open>Runs and what they leave behind\<close>

text \<open>
  The stored decision log (\<^verbatim>\<open>log || []\<close>), and a series of \<^verbatim>\<open>appendDecisionLog\<close>
  calls on a working backend: the step numbers handed out, and the store afterwards.
\<close>

definition stored_log :: "backend \<Rightarrow> log_entry list" where
  "stored_log st = (case decisionlog st of Some l \<Rightarrow> l | None \<Rightarrow> [])"

fun append_many :: "(nat \<times> button \<times> string) list \<Rightarrow> backend \<Rightarrow> nat list \<times> backend" where
  "append_many [] st = ([], st)"
| "append_many ((now, d) # rest) st =
     (case appendDecisionLog no_faults now d st of
        Inl _ \<Rightarrow> ([], st)
      | Inr (n, st') \<Rightarrow> (n # fst (append_many rest st'), snd (append_many rest st')))"

definition entry_of :: "nat \<times> (nat \<times> button \<times> string) \<Rightarrow> log_entry" where
  "entry_of p = (case p of (n, now, b, r) \<Rightarrow>
     \<lparr> step = n, log_button = b, log_reasoning = r, timestamp = now \<rparr>)"

text \<open>
  The number of characters held by the string fields of a notes object, and by the
  value stored under the memstash key: a lower bound of its serialized size.
\<close>

definition notes_chars :: "structured_notes \<Rightarrow> nat" where
  "notes_chars n =
     length (str_of (currentObjective n)) + length (str_of (lastKnownLocation n))
     + length (str_of (exitFound n)) + sum_list (map length (attempts_of n))
     + length (str_of (importantDiscovery n)) + length (str_of (general n))
     + (case legacyText n of Some s \<Rightarrow> length s | None \<Rightarrow> 0)"

definition stored_chars :: "error + backend \<Rightarrow> nat" where
  "stored_chars r = (case r of Inl _ \<Rightarrow> 0
     | Inr st \<Rightarrow> (case memstash st of No_content \<Rightarrow> 0
         | Legacy_string s \<Rightarrow> length s
         | Structured n \<Rightarrow> notes_chars n))"

text \<open>
  What the card observes in a run: for every frame that is processed, the button the
  outcome is attributed to (the button of the previous decision) and the visual change.
\<close>

definition processed :: "string option \<Rightarrow> error + ai_decision \<Rightarrow> bool" where
  "processed frame response = (is_valid_frame frame \<and> (case response of Inr _ \<Rightarrow> True | Inl _ \<Rightarrow> False))"

definition outcome_of :: "string option \<Rightarrow> card_state \<Rightarrow> button option \<times> visual_change" where
  "outcome_of frame s =
     (lastButtonRef s,
      classify_change (lastFrameHashRef s) (simpleFrameHash (case frame of Some fr \<Rightarrow> fr | None \<Rightarrow> [])))"

fun outcomes ::
  "(nat \<times> string option \<times> (error + ai_decision)) list \<Rightarrow> card_state
     \<Rightarrow> (button option \<times> visual_change) list" where
  "outcomes [] s = []"
| "outcomes ((now, frame, response) # rest) s =
     (if processed frame response then [outcome_of frame s] else [])
     @ outcomes rest (processFrame now frame response s)"

text \<open>
  The same observations read off the inputs alone: \<open>prev\<close> is the button and the
  fingerprint of the last frame that was processed, if any.
\<close>

fun observed ::
  "(button \<times> string) option \<Rightarrow> (nat \<times> string option \<times> (error + ai_decision)) list
     \<Rightarrow> (button option \<times> visual_change) list" where
  "observed prev [] = []"
| "observed prev ((now, frame, response) # rest) =
     (case (frame, response) of
        (Some fr, Inr d) \<Rightarrow>
          if is_valid_frame frame
          then (case prev of
                  None \<Rightarrow> (None, First_frame)
                | Some (b, h) \<Rightarrow>
                    (Some b, if h = simpleFrameHash fr then No_change else Change_detected))
               # observed (Some (button d, simpleFrameHash fr)) rest
          else observed prev rest
      | _ \<Rightarrow> observed prev rest)"

text \<open>The card remembers the button and the fingerprint of the last processed frame.\<close>

definition remembers :: "card_state \<Rightarrow> (button \<times> string) option \<Rightarrow> bool" where
  "remembers s prev = (case prev of
       None \<Rightarrow> lastButtonRef s = None \<and> lastFrameHashRef s = None
     | Some (b, h) \<Rightarrow> lastButtonRef s = Some b \<and> lastFrameHashRef s = Some h)"

text \<open>
  The no-change counter of a button as the specification words it: an outcome
  \<open>no_change\<close> attributed to the button adds one, an outcome \<open>change_detected\<close>
  attributed to it clears the counter, anything else leaves it.
\<close>

definition spec_count_outcome :: "button \<Rightarrow> nat \<Rightarrow> button option \<times> visual_change \<Rightarrow> nat" where
  "spec_count_outcome b n oc =
     (if fst oc = Some b
      then (if snd oc = No_change then n + 1 else if snd oc = Change_detected then 0 else n)
      else n)"

definition spec_no_change_streak :: "button \<Rightarrow> (button option \<times> visual_change) list \<Rightarrow> nat" where
  "spec_no_change_streak b os = foldl (spec_count_outcome b) 0 os"

text \<open>Every button with a running no-change count is on the avoid list.\<close>

definition avoid_invariant :: "card_state \<Rightarrow> bool" where
  "avoid_invariant s \<longleftrightarrow> (\<forall>b. noChangeCountRef s b \<ge> 1 \<longrightarrow> b \<in> set (buttonsToAvoid s))"

section \<open>Sample inputs\<close>

definition example_table :: scores where
  "example_table =
     [(Btn_A, 9 / 10), (Btn_B, 1 / 10), (Btn_START, 0), (Btn_SELECT, 0),
      (Btn_UP, 2 / 10), (Btn_DOWN, 2 / 10), (Btn_LEFT, 2 / 10), (Btn_RIGHT, 3 / 10),
      (Btn_L, 0), (Btn_R, 0), (Btn_WAIT, 1 / 10)]"

definition example_result :: "scores option list \<Rightarrow> model_result" where
  "example_result steps =
     \<lparr> object_decision =
         \<lparr> m_screenAnalysis = ''A sign is in front of the player'',
           m_reasoning = ''Read the sign'',
           m_personality_comment = None,
           m_buttonSequence = steps,
           m_progressConfidence = 1 / 2,
           m_notes = None \<rparr>,
       result_usage = None \<rparr>"

definition empty_backend :: backend where
  "empty_backend = \<lparr> memstash = No_content, decisionlog = None \<rparr>"



definition all_faults :: faults where
  "all_faults = \<lparr> get_fails = True, set_fails = True, del_fails = True \<rparr>"

definition example_notes :: structured_notes where
  "example_notes = empty_notes\<lparr> currentObjective := Val ''Leave the house'',
     failedAttempts := Val [''UP into wall'', ''A on the plant''] \<rparr>"

definition example_store :: backend where
  "example_store =
     \<lparr> memstash = Structured (empty_notes\<lparr> currentObjective := Val ''Find the stairs'',
          exitFound := Val ''door on the south wall'',
          failedAttempts := Val [''a1'', ''a2'', ''a3'', ''a4''] \<rparr>),
       decisionlog = Some [\<lparr> step = 1, log_button = Btn_A, log_reasoning = ''start'',
                             timestamp = 0 \<rparr>] \<rparr>"

definition example_existing :: structured_notes where
  "example_existing = empty_notes\<lparr> currentObjective := Val ''Find the stairs'',
          exitFound := Val ''door on the south wall'',
          failedAttempts := Val [''a1'', ''a2'', ''a3'', ''a4''] \<rparr>"

definition long_text :: string where
  "long_text = replicate 2500 CHR ''x''"

text \<open>Three merges on an empty store, each writing one field of 2500 characters.\<close>

definition three_merges :: "error + backend" where
  "three_merges =
     bind_e (bind_e (mergeStructuredNotes no_faults
                        (empty_notes\<lparr>currentObjective := Val long_text\<rparr>) empty_backend)
                (mergeStructuredNotes no_faults (empty_notes\<lparr>importantDiscovery := Val long_text\<rparr>)))
        (mergeStructuredNotes no_faults (empty_notes\<lparr>general := Val long_text\<rparr>))"

text \<open>
  Two frames that differ between the sampled positions 0 and 1000 of the payload and
  agree at both, and a decision to go with them.
\<close>

definition frame_a :: string where
  "frame_a = ''data:image/png;base64'' @ CHR '','' # CHR ''A'' # replicate 1100 CHR ''x''"

definition frame_b :: string where
  "frame_b = ''data:image/png;base64'' @ CHR '','' # CHR ''A'' # replicate 999 CHR ''y''
               @ CHR ''x'' # replicate 100 CHR ''y''"

text \<open>A frame with another fingerprint than \<open>frame_a\<close>.\<close>

definition frame_c :: string where
  "frame_c = ''data:image/png;base64'' @ CHR '','' # CHR ''B'' # replicate 1100 CHR ''x''"

definition press :: "button \<Rightarrow> ai_decision" where
  "press b =
     \<lparr> button = b, reasoning = ''keep going'', screenAnalysis = Some ''a room'',
       confidence = 9 / 10, personality_comment = Some [],
       confidenceScores = AList.update b (9 / 10) (map (\<lambda>k. (k, 1 / 10)) all_buttons),
       progressConfidence = 1 / 2, buttonSequence = Some [(b, 9 / 10)],
       decided_at = 0, isFallback = False \<rparr>"

text \<open>Six times the same frame, the answer being RIGHT each time.\<close>

definition stuck_run :: "(nat \<times> string option \<times> (error + ai_decision)) list" where
  "stuck_run = map (\<lambda>n. (n, Some frame_a, Inr (press Btn_RIGHT))) [1, 2, 3, 4, 5, 6]"

text \<open>The first five of them, and the six followed by a frame that differs.\<close>

definition stuck_five :: "(nat \<times> string option \<times> (error + ai_decision)) list" where
  "stuck_five = map (\<lambda>n. (n, Some frame_a, Inr (press Btn_RIGHT))) [1, 2, 3, 4, 5]"

definition unstuck_run :: "(nat \<times> string option \<times> (error + ai_decision)) list" where
  "unstuck_run = stuck_run @ [(7, Some frame_c, Inr (press Btn_RIGHT))]"

text \<open>\<open>k\<close> iterations on the same valid frame, each answered by a one-step plan A.\<close>

definition presses :: "nat \<Rightarrow> (nat \<times> string option \<times> (error + ai_decision)) list" where
  "presses k = map (\<lambda>n. (n, Some frame_a, Inr (press Btn_A))) [0..<k]"

section \<open>Properties\<close>

subsection \<open>Exceptions\<close>

lemma bind_e_simps [simp]:
  "bind_e (Inl e) k = Inl e" "bind_e (Inr v) k = k v"
  by (simp_all add: bind_e_def)

lemma try_catch_simps [simp]:
  "try_catch (Inl e) h = h e" "try_catch (Inr v) h = Inr v"
  by (simp_all add: try_catch_def)

text \<open>No operation of the memory store lets an exception of the backend through.\<close>

lemma getStructuredNotes_returns: "\<exists>n. getStructuredNotes f st = Inr n"
  by (simp add: getStructuredNotes_def redis_get_memstash_def split: stored_notes.splits)

lemma getMemStash_returns: "\<exists>s. getMemStash f st = Inr s"
  by (simp add: getMemStash_def redis_get_memstash_def split: stored_notes.splits)

lemma mergeStructuredNotes_returns: "\<exists>st'. mergeStructuredNotes f n st = Inr st'"
proof -
  obtain ex where "getStructuredNotes f st = Inr ex"
    using getStructuredNotes_returns by blast
  then show ?thesis
    by (simp add: mergeStructuredNotes_def redis_set_memstash_def)
qed

lemma appendMemStash_returns: "\<exists>st'. appendMemStash f ts c st = Inr st'"
proof (cases c)
  case (Text s)
  obtain ex where "getStructuredNotes f st = Inr ex"
    using getStructuredNotes_returns by blast
  with Text show ?thesis
    by (simp add: appendMemStash_def redis_set_memstash_def)
next
  case (Delta n)
  then show ?thesis
    using mergeStructuredNotes_returns by (simp add: appendMemStash_def)
qed

lemma getDecisionLog_returns: "\<exists>l. getDecisionLog f st = Inr l"
  by (simp add: getDecisionLog_def redis_get_decisionlog_def)

lemma appendDecisionLog_returns: "\<exists>n st'. appendDecisionLog f now d st = Inr (n, st')"
proof -
  obtain l where "getDecisionLog f st = Inr l"
    using getDecisionLog_returns by blast
  then show ?thesis
    by (simp add: appendDecisionLog_def redis_set_decisionlog_def Let_def)
qed

subsection \<open>Sequence derivation\<close>

lemma foldl_best_invariant:
  fixes b0 :: "button \<times> rat"
  defines "f \<equiv> (\<lambda>b (btn, score). if score > snd b then (btn, score) else b)"
  shows "(foldl f b0 es = b0 \<or> foldl f b0 es \<in> set es)
         \<and> snd b0 \<le> snd (foldl f b0 es)
         \<and> (\<forall>(b, v) \<in> set es. v \<le> snd (foldl f b0 es))
         \<and> ((\<exists>(b, v) \<in> set es. snd b0 < v) \<longrightarrow> foldl f b0 es \<in> set es)"
proof (induction es arbitrary: b0)
  case Nil
  then show ?case by simp
next
  case (Cons e es)
  obtain btn score where e: "e = (btn, score)" by (cases e)
  show ?case
  proof (cases "score > snd b0")
    case True
    then have fe: "f b0 (btn, score) = (btn, score)"
      by (simp add: f_def)
    from Cons.IH[of "(btn, score)"] True show ?thesis
      by (auto simp: e fe)
  next
    case False
    then have fe: "f b0 (btn, score) = b0"
      by (simp add: f_def)
    from Cons.IH[of b0] False show ?thesis
      by (auto simp: e fe)
  qed
qed

lemma pick_best_is_argmax:
  assumes "es \<noteq> []" "list_all (\<lambda>(b, v). 0 \<le> v \<and> v \<le> 1) es"
  shows "pick_best es \<in> set es" "\<forall>(b, v) \<in> set es. v \<le> snd (pick_best es)"
proof -
  from assms obtain b v where "(b, v) \<in> set es" "0 \<le> v"
    by (cases es) (auto)
  then have "\<exists>(b, v) \<in> set es. snd (Btn_A, - 1 :: rat) < v"
    by force
  with foldl_best_invariant[of "(Btn_A, - 1)" es]
  show "pick_best es \<in> set es" "\<forall>(b, v) \<in> set es. v \<le> snd (pick_best es)"
    unfolding pick_best_def by blast+
qed

lemma build_sequence_extends:
  "acc \<noteq> [] \<Longrightarrow> \<exists>ys. build_sequence steps acc = acc @ ys"
proof (induction steps acc rule: build_sequence.induct)
  case (1 acc)
  then show ?case by simp
next
  case (2 rest acc)
  then show ?case by simp
next
  case (3 entries rest acc)
  show ?case
  proof (cases "entries = []")
    case True
    with 3 show ?thesis by simp
  next
    case False
    show ?thesis
    proof (cases "snd (pick_best entries) \<ge> SEQUENCE_THRESHOLD")
      case True
      with 3(2)[OF False refl] 3(3) False obtain ys where
        "build_sequence rest (acc @ [pick_best entries]) = (acc @ [pick_best entries]) @ ys"
        by auto
      with True False show ?thesis by (simp add: Let_def)
    next
      case False2: False
      with False 3(3) show ?thesis by (simp add: Let_def)
    qed
  qed
qed

lemma schema_step_table:
  assumes "schema_step s"
  shows "\<exists>e. s = Some e \<and> e \<noteq> [] \<and> list_all (\<lambda>(b, v). 0 \<le> v \<and> v \<le> 1) e"
proof -
  from assms obtain e where e: "s = Some e" "set (map fst e) = set all_buttons"
    "list_all (\<lambda>(b, v). 0 \<le> v \<and> v \<le> 1) e"
    by (auto simp: schema_step_def split: option.splits)
  from e(2) have "e \<noteq> []" by (auto simp: all_buttons_def)
  with e show ?thesis by blast
qed

lemma build_sequence_schema:
  assumes "list_all schema_step steps" "acc \<noteq> []"
  shows "build_sequence steps acc =
           acc @ map (\<lambda>s. pick_best (table_of s))
                   (takeWhile (\<lambda>s. SEQUENCE_THRESHOLD \<le> snd (pick_best (table_of s))) steps)"
  using assms
proof (induction steps arbitrary: acc)
  case Nil
  then show ?case by simp
next
  case (Cons s steps)
  from Cons.prems obtain e where e: "s = Some e" "e \<noteq> []"
    using schema_step_table[of s] by auto
  show ?case
  proof (cases "SEQUENCE_THRESHOLD \<le> snd (pick_best e)")
    case True
    have "build_sequence steps (acc @ [pick_best e]) =
            (acc @ [pick_best e]) @ map (\<lambda>s. pick_best (table_of s))
               (takeWhile (\<lambda>s. SEQUENCE_THRESHOLD \<le> snd (pick_best (table_of s))) steps)"
      using Cons.prems by (intro Cons.IH) auto
    with True e Cons.prems show ?thesis
      by (simp add: table_of_def Let_def)
  next
    case False
    with e Cons.prems show ?thesis
      by (simp add: table_of_def Let_def)
  qed
qed

lemma build_sequence_first:
  assumes "list_all schema_step (s1 # rest)"
  shows "build_sequence (s1 # rest) [] =
           pick_best (table_of s1) # map (\<lambda>s. pick_best (table_of s))
                   (takeWhile (\<lambda>s. SEQUENCE_THRESHOLD \<le> snd (pick_best (table_of s))) rest)"
proof -
  from assms obtain e where e: "s1 = Some e" "e \<noteq> []"
    using schema_step_table[of s1] by auto
  have "build_sequence (s1 # rest) [] = build_sequence rest [pick_best e]"
    using e by (simp add: Let_def)
  also have "\<dots> = [pick_best e] @ map (\<lambda>s. pick_best (table_of s))
                   (takeWhile (\<lambda>s. SEQUENCE_THRESHOLD \<le> snd (pick_best (table_of s))) rest)"
    using assms by (intro build_sequence_schema) auto
  finally show ?thesis using e by (simp add: table_of_def)
qed

lemma analyze_accepted:
  assumes "schema_accepts r" "m_buttonSequence (object_decision r) = s1 # rest"
  shows "\<exists>st'. analyzeFrameAndDecide fn fl ts now (Inr r) st =
     Inr (\<lparr> decision =
              \<lparr> button = fst (pick_best (table_of s1)),
                reasoning = m_reasoning (object_decision r),
                screenAnalysis = Some (m_screenAnalysis (object_decision r)),
                confidence = snd (pick_best (table_of s1)),
                personality_comment = m_personality_comment (object_decision r),
                confidenceScores = table_of s1,
                progressConfidence = m_progressConfidence (object_decision r),
                buttonSequence = Some (pick_best (table_of s1) # map (\<lambda>s. pick_best (table_of s))
                   (takeWhile (\<lambda>s. SEQUENCE_THRESHOLD \<le> snd (pick_best (table_of s))) rest)),
                decided_at = now,
                isFallback = False \<rparr>,
             usage = usage_of (result_usage r) \<rparr>, st')"
proof -
  let ?d = "object_decision r"
  from assms have steps: "list_all schema_step (s1 # rest)"
    by (simp add: schema_accepts_def)
  note bs = build_sequence_first[OF steps]
  obtain st1 where st1: "(case m_notes ?d of Some n \<Rightarrow> appendMemStash fn ts (Delta n) st
                           | None \<Rightarrow> Inr st) = Inr st1"
  proof (cases "m_notes ?d")
    case None
    then show ?thesis using that by simp
  next
    case (Some n)
    then show ?thesis using that appendMemStash_returns[of fn ts "Delta n" st] by auto
  qed
  obtain stp st2 where st2:
    "appendDecisionLog fl now (fst (pick_best (table_of s1)), m_reasoning ?d) st1 = Inr (stp, st2)"
    using appendDecisionLog_returns by blast
  show ?thesis
    unfolding analyzeFrameAndDecide_def
    by (simp add: assms(2) bs st1 st2 Let_def del: build_sequence.simps)
qed


subsection \<open>Response merger\<close>

text \<open>
  Claim C1. For every answer of the decision phase that the schema accepts,
  \<^verbatim>\<open>analyzeFrameAndDecide\<close> returns a decision whose \<open>confidenceScores\<close> is the table of
  step 1 of \<open>buttonSequence\<close>, whose \<open>button\<close> and \<open>confidence\<close> are an entry of that
  table, and no entry of the table has a higher confidence.
\<close>

theorem decision_button_is_step1_argmax:
  assumes "schema_accepts r"
  shows "\<exists>out st'. analyzeFrameAndDecide fn fl ts now (Inr r) st = Inr (out, st')
      \<and> hd (m_buttonSequence (object_decision r)) = Some (confidenceScores (decision out))
      \<and> (button (decision out), confidence (decision out)) \<in> set (confidenceScores (decision out))
      \<and> (\<forall>(b, v) \<in> set (confidenceScores (decision out)). v \<le> confidence (decision out))"
proof -
  from assms obtain s1 rest where sr: "m_buttonSequence (object_decision r) = s1 # rest"
    by (cases "m_buttonSequence (object_decision r)") (auto simp: schema_accepts_def)
  with assms have "schema_step s1" by (simp add: schema_accepts_def)
  then obtain e where e: "s1 = Some e" "e \<noteq> []" "list_all (\<lambda>(b, v). 0 \<le> v \<and> v \<le> 1) e"
    using schema_step_table by blast
  from analyze_accepted[OF assms sr, of fn fl ts now st] obtain out st' where
    out: "analyzeFrameAndDecide fn fl ts now (Inr r) st = Inr (out, st')"
      "button (decision out) = fst (pick_best (table_of s1))"
      "confidence (decision out) = snd (pick_best (table_of s1))"
      "confidenceScores (decision out) = table_of s1"
    by force
  have t: "table_of s1 = e" using e by (simp add: table_of_def)
  from pick_best_is_argmax[OF e(2,3)] out t e sr show ?thesis
    by auto
qed

lemma example_accepted: "schema_accepts (example_result [Some example_table])"
  by (simp add: schema_accepts_def example_result_def schema_step_def example_table_def
      all_buttons_def) 

theorem decision_button_is_step1_argmax_witness:
  "schema_accepts (example_result [Some example_table])
   \<and> (\<exists>out st'. analyzeFrameAndDecide no_faults no_faults ''12:00:00'' 0
          (Inr (example_result [Some example_table])) empty_backend = Inr (out, st')
      \<and> button (decision out) = Btn_A \<and> confidence (decision out) = 9 / 10
      \<and> confidenceScores (decision out) = example_table)"
proof -
  have h: "schema_accepts (example_result [Some example_table])"
    by (rule example_accepted)
  from decision_button_is_step1_argmax[OF h, of no_faults no_faults "''12:00:00''" 0 empty_backend]
  obtain out st' where o:
    "analyzeFrameAndDecide no_faults no_faults ''12:00:00'' 0
          (Inr (example_result [Some example_table])) empty_backend = Inr (out, st')"
    "hd (m_buttonSequence (object_decision (example_result [Some example_table])))
       = Some (confidenceScores (decision out))"
    "(button (decision out), confidence (decision out)) \<in> set (confidenceScores (decision out))"
    "\<forall>(b, v) \<in> set (confidenceScores (decision out)). v \<le> confidence (decision out)"
    by blast
  from o(2) have t: "confidenceScores (decision out) = example_table"
    by (simp add: example_result_def)
  from o(4) have "9 / 10 \<le> confidence (decision out)"
    unfolding t by (simp add: example_table_def)
  with o(3) have "button (decision out) = Btn_A \<and> confidence (decision out) = 9 / 10"
    unfolding t by (auto simp: example_table_def)
  with h o(1) t show ?thesis by blast
qed





subsection \<open>Failure mode\<close>

text \<open>
  Claim C3. When the model call throws (model error, schema violation or timeout),
  \<^verbatim>\<open>analyzeFrameAndDecide\<close> returns the fallback decision and leaves the store alone:
  button WAIT, confidence 0.5, a table in which WAIT has 0.5 and every other button at
  most 0.2, the one-step sequence WAIT, \<open>isFallback\<close> set, and a usage of 1500 prompt
  and 100 completion tokens.
\<close>

theorem failure_returns_fallback:
  "analyzeFrameAndDecide fn fl ts now (Inl e) st = Inr (createFallbackDecision 1500 now, st)
   \<and> button (decision (createFallbackDecision 1500 now)) = Btn_WAIT
   \<and> confidence (decision (createFallbackDecision 1500 now)) = 1 / 2
   \<and> map_of (confidenceScores (decision (createFallbackDecision 1500 now))) Btn_WAIT = Some (1 / 2)
   \<and> list_all (\<lambda>(b, v). b = Btn_WAIT \<or> v \<le> 2 / 10)
        (confidenceScores (decision (createFallbackDecision 1500 now)))
   \<and> buttonSequence (decision (createFallbackDecision 1500 now)) = Some [(Btn_WAIT, 1 / 2)]
   \<and> isFallback (decision (createFallbackDecision 1500 now))
   \<and> promptTokens (usage (createFallbackDecision 1500 now)) = 1500
   \<and> completionTokens (usage (createFallbackDecision 1500 now)) = 100
   \<and> totalTokens (usage (createFallbackDecision 1500 now)) = 1600"
  by (simp add: analyzeFrameAndDecide_def createFallbackDecision_def fallback_scores_def)

subsection \<open>Memory store: backend failures\<close>

lemma getMemStashForPrompt_returns: "\<exists>s. getMemStashForPrompt f st = Inr s"
proof -
  obtain c where "getMemStash f st = Inr c" using getMemStash_returns by blast
  then show ?thesis by (simp add: getMemStashForPrompt_def Let_def)
qed

lemma clear_returns:
  "\<exists>st'. clearMemStash f st = Inr st'" "\<exists>st'. clearDecisionLog f st = Inr st'"
  by (simp_all add: clearMemStash_def clearDecisionLog_def redis_del_memstash_def
      redis_del_decisionlog_def)

text \<open>
  Claim C10. Whatever backend calls fail, every operation of the memory store returns
  to its caller. When the read fails, \<^verbatim>\<open>getStructuredNotes\<close> gives the empty notes,
  \<^verbatim>\<open>getMemStash\<close> and \<^verbatim>\<open>getMemStashForPrompt\<close> the empty string and
  \<^verbatim>\<open>getDecisionLog\<close> the empty list. When the write fails, the merge, the append of
  a note and the append to the log leave the store as it was, and the step number
  returned is 0. When the delete fails, the two clear operations leave the store as it
  was.
\<close>

theorem memory_store_never_throws:
  "(\<exists>n. getStructuredNotes f st = Inr n)
   \<and> (\<exists>s. getMemStash f st = Inr s)
   \<and> (\<exists>s. getMemStashForPrompt f st = Inr s)
   \<and> (\<exists>st'. mergeStructuredNotes f x st = Inr st')
   \<and> (\<exists>st'. appendMemStash f ts c st = Inr st')
   \<and> (\<exists>st'. clearMemStash f st = Inr st')
   \<and> (\<exists>l. getDecisionLog f st = Inr l)
   \<and> (\<exists>n st'. appendDecisionLog f now d st = Inr (n, st'))
   \<and> (\<exists>st'. clearDecisionLog f st = Inr st')
   \<and> (get_fails f \<longrightarrow>
         getStructuredNotes f st = Inr empty_notes \<and> getMemStash f st = Inr []
         \<and> getMemStashForPrompt f st = Inr [] \<and> getDecisionLog f st = Inr [])
   \<and> (set_fails f \<longrightarrow>
         mergeStructuredNotes f x st = Inr st \<and> appendMemStash f ts c st = Inr st
         \<and> appendDecisionLog f now d st = Inr (0, st))
   \<and> (del_fails f \<longrightarrow> clearMemStash f st = Inr st \<and> clearDecisionLog f st = Inr st)"
proof -
  have reads: "getStructuredNotes f st = Inr empty_notes \<and> getMemStash f st = Inr []
         \<and> getMemStashForPrompt f st = Inr [] \<and> getDecisionLog f st = Inr []"
    if "get_fails f"
    using that
    by (simp add: getStructuredNotes_def getMemStash_def getMemStashForPrompt_def
        getDecisionLog_def redis_get_memstash_def redis_get_decisionlog_def)
  obtain ex where ex: "getStructuredNotes f st = Inr ex"
    using getStructuredNotes_returns by blast
  obtain l where l: "getDecisionLog f st = Inr l"
    using getDecisionLog_returns by blast
  have merge: "mergeStructuredNotes f x st = Inr st" if "set_fails f" for x
    using that ex by (simp add: mergeStructuredNotes_def redis_set_memstash_def)
  have writes: "mergeStructuredNotes f x st = Inr st \<and> appendMemStash f ts c st = Inr st
         \<and> appendDecisionLog f now d st = Inr (0, st)"
    if "set_fails f"
  proof (intro conjI)
    show "mergeStructuredNotes f x st = Inr st" using that by (rule merge)
    show "appendMemStash f ts c st = Inr st"
      using that ex merge
      by (cases c) (simp_all add: appendMemStash_def redis_set_memstash_def)
    show "appendDecisionLog f now d st = Inr (0, st)"
      using that l by (simp add: appendDecisionLog_def redis_set_decisionlog_def Let_def)
  qed
  have dels: "clearMemStash f st = Inr st \<and> clearDecisionLog f st = Inr st" if "del_fails f"
    using that
    by (simp add: clearMemStash_def clearDecisionLog_def redis_del_memstash_def
        redis_del_decisionlog_def)
  show ?thesis
    using reads writes dels
    by (simp add: getStructuredNotes_returns getMemStash_returns
      getMemStashForPrompt_returns mergeStructuredNotes_returns appendMemStash_returns
      clear_returns getDecisionLog_returns appendDecisionLog_returns)
qed

theorem memory_store_never_throws_witness:
  "get_fails all_faults \<and> set_fails all_faults \<and> del_fails all_faults
   \<and> getStructuredNotes all_faults example_store = Inr empty_notes
   \<and> getMemStash all_faults example_store = Inr []
   \<and> getDecisionLog all_faults example_store = Inr []
   \<and> mergeStructuredNotes all_faults example_notes example_store = Inr example_store
   \<and> appendMemStash all_faults ''12:00:00'' (Text ''went upstairs'') example_store = Inr example_store
   \<and> appendDecisionLog all_faults 7 (Btn_A, ''talk'') example_store = Inr (0, example_store)
   \<and> clearMemStash all_faults example_store = Inr example_store
   \<and> clearDecisionLog all_faults example_store = Inr example_store"
proof -
  have h: "get_fails all_faults" "set_fails all_faults" "del_fails all_faults"
    by (simp_all add: all_faults_def)
  from memory_store_never_throws[of all_faults example_store example_notes "''12:00:00''"
      "Text ''went upstairs''" 7 "(Btn_A, ''talk'')"] h
  show ?thesis by blast
qed

subsection \<open>Merging notes\<close>

lemma slice_last_rev_take: "slice_last n xs = rev (take n (rev xs))"
  by (simp add: slice_last_def rev_take)

lemma no_keys_empty_notes: "no_keys empty_notes"
  by (simp add: no_keys_def empty_notes_def)

lemma merge_empty_delta: "mergeStructuredNotes f empty_notes st = Inr st"
  by (simp add: mergeStructuredNotes_def no_keys_empty_notes)

text \<open>
  Claim C9. Merging a delta \<open>x\<close> and then the empty delta gives what merging \<open>x\<close>
  alone gives, whatever the backend does. In a merge that goes through, each of the six
  scalar fields takes the delta's value when the delta has the key and keeps the stored
  value otherwise; a non-empty \<open>failedAttempts\<close> of the delta is appended to the stored
  list and the last five entries are kept; without one the stored list stays; the
  legacy text stays.
\<close>

theorem merge_then_empty_merge:
  "bind_e (mergeStructuredNotes f x st) (mergeStructuredNotes f' empty_notes)
     = mergeStructuredNotes f x st
   \<and> (\<not> no_keys x \<longrightarrow> getStructuredNotes no_faults st = Inr existing \<longrightarrow>
        (\<exists>merged. mergeStructuredNotes no_faults x st = Inr (st\<lparr>memstash := Structured merged\<rparr>)
           \<and> currentObjective merged =
               (if currentObjective x \<noteq> Undefined then currentObjective x
                else currentObjective existing)
           \<and> lastKnownLocation merged =
               (if lastKnownLocation x \<noteq> Undefined then lastKnownLocation x
                else lastKnownLocation existing)
           \<and> exitFound merged =
               (if exitFound x \<noteq> Undefined then exitFound x else exitFound existing)
           \<and> stuckMode merged =
               (if stuckMode x \<noteq> Undefined then stuckMode x else stuckMode existing)
           \<and> importantDiscovery merged =
               (if importantDiscovery x \<noteq> Undefined then importantDiscovery x
                else importantDiscovery existing)
           \<and> general merged =
               (if general x \<noteq> Undefined then general x else general existing)
           \<and> (\<forall>fa. failedAttempts x = Val fa \<longrightarrow> fa \<noteq> [] \<longrightarrow>
                 failedAttempts merged = Val (rev (take 5 (rev (attempts_of existing @ fa)))))
           \<and> ((\<forall>fa. failedAttempts x = Val fa \<longrightarrow> fa = []) \<longrightarrow>
                 failedAttempts merged = failedAttempts existing)
           \<and> legacyText merged = legacyText existing))"
proof (intro conjI impI)
  obtain st' where "mergeStructuredNotes f x st = Inr st'"
    using mergeStructuredNotes_returns by blast
  then show "bind_e (mergeStructuredNotes f x st) (mergeStructuredNotes f' empty_notes)
     = mergeStructuredNotes f x st"
    by (simp add: merge_empty_delta)
next
  assume nk: "\<not> no_keys x" and ex: "getStructuredNotes no_faults st = Inr existing"
  let ?m = "merge_fields existing x"
  have run: "mergeStructuredNotes no_faults x st = Inr (st\<lparr>memstash := Structured ?m\<rparr>)"
    using nk ex by (simp add: mergeStructuredNotes_def redis_set_memstash_def no_faults_def)
  have fields: "currentObjective ?m = overwrite (currentObjective x) (currentObjective existing)"
    "lastKnownLocation ?m = overwrite (lastKnownLocation x) (lastKnownLocation existing)"
    "exitFound ?m = overwrite (exitFound x) (exitFound existing)"
    "stuckMode ?m = overwrite (stuckMode x) (stuckMode existing)"
    "importantDiscovery ?m = overwrite (importantDiscovery x) (importantDiscovery existing)"
    "general ?m = overwrite (general x) (general existing)"
    "legacyText ?m = legacyText existing"
    by (simp_all add: merge_fields_def Let_def split: js.splits)
  have fa1: "failedAttempts ?m = Val (rev (take 5 (rev (attempts_of existing @ fa))))"
    if "failedAttempts x = Val fa" "fa \<noteq> []" for fa
    using that by (simp add: merge_fields_def Let_def slice_last_rev_take attempts_of_def)
  have fa2: "failedAttempts ?m = failedAttempts existing"
    if "\<forall>fa. failedAttempts x = Val fa \<longrightarrow> fa = []"
    using that by (simp add: merge_fields_def Let_def split: js.splits)
  show "\<exists>merged. mergeStructuredNotes no_faults x st = Inr (st\<lparr>memstash := Structured merged\<rparr>)
           \<and> currentObjective merged =
               (if currentObjective x \<noteq> Undefined then currentObjective x
                else currentObjective existing)
           \<and> lastKnownLocation merged =
               (if lastKnownLocation x \<noteq> Undefined then lastKnownLocation x
                else lastKnownLocation existing)
           \<and> exitFound merged =
               (if exitFound x \<noteq> Undefined then exitFound x else exitFound existing)
           \<and> stuckMode merged =
               (if stuckMode x \<noteq> Undefined then stuckMode x else stuckMode existing)
           \<and> importantDiscovery merged =
               (if importantDiscovery x \<noteq> Undefined then importantDiscovery x
                else importantDiscovery existing)
           \<and> general merged =
               (if general x \<noteq> Undefined then general x else general existing)
           \<and> (\<forall>fa. failedAttempts x = Val fa \<longrightarrow> fa \<noteq> [] \<longrightarrow>
                 failedAttempts merged = Val (rev (take 5 (rev (attempts_of existing @ fa)))))
           \<and> ((\<forall>fa. failedAttempts x = Val fa \<longrightarrow> fa = []) \<longrightarrow>
                 failedAttempts merged = failedAttempts existing)
           \<and> legacyText merged = legacyText existing"
    apply (rule exI[of _ ?m])
    using run fields fa1 fa2 by (simp add: overwrite_def)
qed

theorem merge_then_empty_merge_witness:
  "\<not> no_keys example_notes
   \<and> getStructuredNotes no_faults example_store = Inr example_existing
   \<and> (\<exists>merged. mergeStructuredNotes no_faults example_notes example_store
          = Inr (example_store\<lparr>memstash := Structured merged\<rparr>)
        \<and> currentObjective merged = Val ''Leave the house''
        \<and> exitFound merged = Val ''door on the south wall''
        \<and> failedAttempts merged = Val [''a2'', ''a3'', ''a4'', ''UP into wall'', ''A on the plant''])"
proof -
  have h1: "\<not> no_keys example_notes"
    by (simp add: no_keys_def example_notes_def empty_notes_def)
  have h2: "getStructuredNotes no_faults example_store = Inr example_existing"
    by (simp add: getStructuredNotes_def redis_get_memstash_def no_faults_def example_store_def
        example_existing_def)
  from merge_then_empty_merge[of no_faults example_notes example_store no_faults example_existing]
    h1 h2
  obtain merged where m:
    "mergeStructuredNotes no_faults example_notes example_store
          = Inr (example_store\<lparr>memstash := Structured merged\<rparr>)"
    "currentObjective merged =
               (if currentObjective example_notes \<noteq> Undefined then currentObjective example_notes
                else currentObjective example_existing)"
    "exitFound merged =
               (if exitFound example_notes \<noteq> Undefined then exitFound example_notes
                else exitFound example_existing)"
    "\<forall>fa. failedAttempts example_notes = Val fa \<longrightarrow> fa \<noteq> [] \<longrightarrow>
                 failedAttempts merged = Val (rev (take 5 (rev (attempts_of example_existing @ fa))))"
    by blast
  from m(2) have c: "currentObjective merged = Val ''Leave the house''"
    by (simp add: example_notes_def empty_notes_def)
  from m(3) have e: "exitFound merged = Val ''door on the south wall''"
    by (simp add: example_notes_def example_existing_def empty_notes_def)
  from m(4) have f: "failedAttempts merged = Val [''a2'', ''a3'', ''a4'', ''UP into wall'', ''A on the plant'']"
    by (simp add: example_notes_def example_existing_def empty_notes_def attempts_of_def)
  from h1 h2 m(1) c e f show ?thesis by blast
qed

subsection \<open>Decision log\<close>

lemma appendDecisionLog_ok:
  "appendDecisionLog no_faults now (b, r) st =
     Inr (length (stored_log st) + 1,
          st\<lparr>decisionlog := Some (slice_last 500
             (stored_log st @ [entry_of (length (stored_log st) + 1, now, b, r)]))\<rparr>)"
  by (simp add: appendDecisionLog_def getDecisionLog_def redis_get_decisionlog_def
      redis_set_decisionlog_def no_faults_def stored_log_def entry_of_def Let_def)

lemma stored_log_update [simp]: "stored_log (st\<lparr>decisionlog := Some l\<rparr>) = l"
  by (simp add: stored_log_def)

lemma length_slice_last [simp]: "length (slice_last n xs) = min n (length xs)"
  by (simp add: slice_last_def)

lemma slice_last_slice_last: "slice_last n (slice_last n xs @ ys) = slice_last n (xs @ ys)"
proof (cases "n \<le> length xs")
  case True
  then have "length xs - n + n = length xs" by simp
  with True show ?thesis by (simp add: slice_last_def add.commute)
next
  case False
  then show ?thesis by (simp add: slice_last_def)
qed

lemma append_many_Cons:
  "append_many ((now, b, r) # rest) st =
     (let st' = st\<lparr>decisionlog := Some (slice_last 500
             (stored_log st @ [entry_of (length (stored_log st) + 1, now, b, r)]))\<rparr>
      in ((length (stored_log st) + 1) # fst (append_many rest st'), snd (append_many rest st')))"
  by (simp add: appendDecisionLog_ok Let_def)

lemma length_steps [simp]: "length (fst (append_many cs st)) = length cs"
  by (induction cs arbitrary: st) (auto simp: append_many_Cons Let_def simp del: append_many.simps(2))

lemma steps_closed_form:
  "length (stored_log st) \<le> 500 \<Longrightarrow>
   fst (append_many cs st) = map (\<lambda>k. min (length (stored_log st) + k) 500 + 1) [0..<length cs]"
proof (induction cs arbitrary: st)
  case Nil
  then show ?case by simp
next
  case (Cons c cs)
  obtain now b r where c: "c = (now, b, r)" by (cases c)
  let ?st' = "st\<lparr>decisionlog := Some (slice_last 500
             (stored_log st @ [entry_of (length (stored_log st) + 1, now, b, r)]))\<rparr>"
  have len: "length (stored_log ?st') = min (length (stored_log st) + 1) 500"
    by (simp add: min.commute)
  then have "length (stored_log ?st') \<le> 500" by simp
  from Cons.IH[OF this] have
    "fst (append_many cs ?st') = map (\<lambda>k. min (min (length (stored_log st) + 1) 500 + k) 500 + 1) [0..<length cs]"
    unfolding len .
  also have "\<dots> = map (\<lambda>k. min (length (stored_log st) + Suc k) 500 + 1) [0..<length cs]"
    by (intro map_cong) auto
  also have "\<dots> = map (\<lambda>k. min (length (stored_log st) + k) 500 + 1) (map Suc [0..<length cs])"
    by (simp add: comp_def)
  finally have tl: "fst (append_many cs ?st') =
      map (\<lambda>k. min (length (stored_log st) + k) 500 + 1) [Suc 0..<Suc (length cs)]"
    by (simp only: map_Suc_upt)
  have "[0..<length (c # cs)] = 0 # [Suc 0..<Suc (length cs)]"
    by (simp add: upt_rec)
  with tl Cons.prems show ?case
    unfolding c append_many_Cons Let_def by simp
qed

lemma stored_after_closed_form:
  "stored_log (snd (append_many cs st)) =
     slice_last 500 (stored_log st @ map entry_of (zip (fst (append_many cs st)) cs))
   \<or> (cs = [] \<and> snd (append_many cs st) = st)"
proof (induction cs arbitrary: st)
  case Nil
  then show ?case by simp
next
  case (Cons c cs)
  obtain now b r where c: "c = (now, b, r)" by (cases c)
  let ?e = "entry_of (length (stored_log st) + 1, now, b, r)"
  let ?st' = "st\<lparr>decisionlog := Some (slice_last 500 (stored_log st @ [?e]))\<rparr>"
  from Cons.IH[of ?st'] have
    "stored_log (snd (append_many cs ?st')) =
       slice_last 500 (stored_log st @ ?e # map entry_of (zip (fst (append_many cs ?st')) cs))"
  proof
    assume "stored_log (snd (append_many cs ?st')) =
      slice_last 500 (stored_log ?st' @ map entry_of (zip (fst (append_many cs ?st')) cs))"
    then show ?thesis
      using slice_last_slice_last[of 500 "stored_log st @ [?e]"] by simp
  next
    assume "cs = [] \<and> snd (append_many cs ?st') = ?st'"
    then show ?thesis by simp
  qed
  then show ?case
    unfolding c append_many_Cons Let_def by simp
qed

lemma length_stored_after:
  "length (stored_log st) \<le> 500 \<Longrightarrow>
   length (stored_log (snd (append_many cs st))) = min (length (stored_log st) + length cs) 500"
proof (induction cs arbitrary: st)
  case Nil
  then show ?case by simp
next
  case (Cons c cs)
  obtain now b r where c: "c = (now, b, r)" by (cases c)
  let ?st' = "st\<lparr>decisionlog := Some (slice_last 500
             (stored_log st @ [entry_of (length (stored_log st) + 1, now, b, r)]))\<rparr>"
  have len: "length (stored_log ?st') = min (length (stored_log st) + 1) 500"
    by (simp add: min.commute)
  then have "length (stored_log ?st') \<le> 500" by simp
  from Cons.IH[OF this] len show ?case
    unfolding c append_many_Cons Let_def by simp
qed


text \<open>
  What holds of every series of calls on a working backend that starts from a stored log
  of at most 500 entries: each call hands out the length of the stored log plus one, the
  numbers never decrease and increase strictly as long as the number handed out is at
  most 500, and the stored log is the last 500 of the old entries followed by the new
  ones.
\<close>

lemma decision_log_behaviour:
  assumes "length (stored_log st) \<le> 500"
  shows "(\<forall>k < length cs. fst (append_many cs st) ! k
              = length (stored_log (snd (append_many (take k cs) st))) + 1)
    \<and> (\<forall>i j. i < j \<longrightarrow> j < length cs \<longrightarrow>
          fst (append_many cs st) ! i \<le> fst (append_many cs st) ! j
          \<and> (fst (append_many cs st) ! j \<le> 500 \<longrightarrow>
                fst (append_many cs st) ! i < fst (append_many cs st) ! j))
    \<and> (cs \<noteq> [] \<longrightarrow> stored_log (snd (append_many cs st))
          = slice_last 500 (stored_log st @ map entry_of (zip (fst (append_many cs st)) cs)))
    \<and> length (stored_log (snd (append_many cs st))) \<le> 500"
proof (intro conjI allI impI)
  fix k assume k: "k < length cs"
  then have "length (stored_log (snd (append_many (take k cs) st)))
      = min (length (stored_log st) + k) 500"
    using length_stored_after[OF assms, of "take k cs"] by simp
  with k show "fst (append_many cs st) ! k
              = length (stored_log (snd (append_many (take k cs) st))) + 1"
    by (simp add: steps_closed_form[OF assms])
next
  fix i j :: nat assume "i < j" "j < length cs"
  then show "fst (append_many cs st) ! i \<le> fst (append_many cs st) ! j"
    by (simp add: steps_closed_form[OF assms])
next
  fix i j :: nat assume "i < j" "j < length cs" "fst (append_many cs st) ! j \<le> 500"
  then show "fst (append_many cs st) ! i < fst (append_many cs st) ! j"
    by (simp add: steps_closed_form[OF assms])
next
  assume "cs \<noteq> []"
  then show "stored_log (snd (append_many cs st))
          = slice_last 500 (stored_log st @ map entry_of (zip (fst (append_many cs st)) cs))"
    using stored_after_closed_form[of cs st] by simp
next
  show "length (stored_log (snd (append_many cs st))) \<le> 500"
    by (simp add: length_stored_after[OF assms])
qed

text \<open>
  Claim C7, evaluated on a cleared log. The step number is \<^verbatim>\<open>log.length + 1\<close> of the
  array as it is stored, that is, after \<^verbatim>\<open>slice(-500)\<close>. Once 500 entries are stored
  the length stays 500: call 501 and call 502 are both given step 501, so the step
  numbers do not increase from call to call and no longer index the log.
\<close>

theorem decision_log_step_repeats:
  "fst (append_many (replicate 502 (0, Btn_A, ''x'')) empty_backend) ! 500 = 501
   \<and> fst (append_many (replicate 502 (0, Btn_A, ''x'')) empty_backend) ! 501 = 501
   \<and> \<not> sorted_wrt (<) (fst (append_many (replicate 502 (0, Btn_A, ''x'')) empty_backend))"
proof -
  let ?steps = "fst (append_many (replicate 502 (0, Btn_A, ''x'')) empty_backend)"
  have "length (stored_log empty_backend) \<le> 500"
    by (simp add: empty_backend_def stored_log_def)
  then have eq: "?steps ! 500 = 501" "?steps ! 501 = 501"
    by (simp_all add: steps_closed_form empty_backend_def stored_log_def)
  have "\<not> sorted_wrt (<) ?steps"
  proof
    assume "sorted_wrt (<) ?steps"
    then have "?steps ! 500 < ?steps ! 501"
      by (simp add: sorted_wrt_iff_nth_less)
    with eq show False by simp
  qed
  with eq show ?thesis by blast
qed

subsection \<open>Size of the notes\<close>

lemma prompt_projection_bounded:
  "\<exists>s. getMemStashForPrompt f st = Inr s \<and> length s \<le> 1000"
proof -
  obtain c where "getMemStash f st = Inr c" using getMemStash_returns by blast
  then show ?thesis
    by (simp add: getMemStashForPrompt_def Let_def MEMSTASH_PROMPT_LIMIT_def)
qed

lemma split_on_nonempty [simp]: "split_on c s \<noteq> []"
  by (induction s) (auto split: list.splits)

lemma join_Cons_Cons: "join sep ((x # l) # ls) = x # join sep (l # ls)"
  by (cases ls) simp_all

lemma join_split_on: "join [c] (split_on c s) = s"
proof (induction s)
  case Nil
  then show ?case by simp
next
  case (Cons x xs)
  obtain l ls where sp: "split_on c xs = l # ls"
    by (cases "split_on c xs") auto
  with Cons show ?case
    by (cases ls) (auto simp: join_Cons_Cons)
qed

lemma hd_split_on_no_sep: "c \<notin> set (hd (split_on c s))"
  by (induction s) (auto split: list.splits)

lemma drop_lines_result:
  "lines \<noteq> [] \<Longrightarrow> updated = join [newline] lines \<Longrightarrow>
   length (drop_lines lines updated) \<le> MEMSTASH_MAX_TOTAL \<or> drop_lines lines updated = hd lines"
proof (induction lines updated rule: drop_lines.induct)
  case (1 lines updated)
  show ?case
  proof (cases "length updated > MEMSTASH_MAX_TOTAL \<and> length lines > 1")
    case True
    then have ne: "butlast lines \<noteq> []"
      by (cases lines rule: rev_cases) auto
    have hd: "hd (butlast lines) = hd lines"
      using True by (cases lines) auto
    from "1.IH"[OF True ne refl] hd True show ?thesis
      by (subst (1 2) drop_lines.simps) simp
  next
    case False
    show ?thesis
    proof (cases "length updated > MEMSTASH_MAX_TOTAL")
      case True
      with False have "length lines \<le> 1" by simp
      with "1.prems" obtain l where "lines = [l]"
        by (cases lines) auto
      with "1.prems" False show ?thesis
        by (subst (1 2) drop_lines.simps) simp
    next
      case False2: False
      then show ?thesis
        by (subst drop_lines.simps) simp
    qed
  qed
qed

lemma legacy_update_bounded:
  "length (legacy_update ts content existing) \<le> MEMSTASH_MAX_TOTAL
   \<or> newline \<notin> set (legacy_update ts content existing)"
proof -
  define updated where "updated =
     (let newEntry = ''['' @ ts @ ''] '' @ trim content;
          legacy = (case legacyText existing of Some s \<Rightarrow> s | None \<Rightarrow> [])
      in if legacy \<noteq> [] then newEntry @ [newline] @ legacy else newEntry)"
  have lu: "legacy_update ts content existing =
     (if length updated > MEMSTASH_MAX_TOTAL
      then drop_lines (split_on newline updated) updated else updated)"
    by (simp add: legacy_update_def updated_def Let_def)
  show ?thesis
  proof (cases "length updated > MEMSTASH_MAX_TOTAL")
    case True
    from drop_lines_result[of "split_on newline updated" updated]
    have "length (drop_lines (split_on newline updated) updated) \<le> MEMSTASH_MAX_TOTAL
       \<or> drop_lines (split_on newline updated) updated = hd (split_on newline updated)"
      by (simp add: join_split_on)
    with True lu show ?thesis
      using hd_split_on_no_sep[of newline updated] by auto
  next
    case False
    with lu show ?thesis by simp
  qed
qed


lemma merge_fields_attempts:
  "length (attempts_of existing) \<le> 5 \<Longrightarrow> length (attempts_of (merge_fields existing x)) \<le> 5"
  by (simp add: merge_fields_def attempts_of_def Let_def split: js.splits)

text \<open>
  The bounds that do hold. Whatever the store holds and whatever the backend does, the
  projection returned by \<^verbatim>\<open>getMemStashForPrompt\<close> has at most 1000 characters. A
  legacy append that goes through leaves a legacy text of at most 5000 characters or a
  single line. A structured merge that goes through keeps \<open>failedAttempts\<close> at five
  entries or fewer if it was so before.
\<close>

lemma notes_bounds_that_hold:
  "(\<exists>s. getMemStashForPrompt f st = Inr s \<and> length s \<le> 1000)
   \<and> (c \<noteq> [] \<longrightarrow> trim c \<noteq> [] \<longrightarrow>
        (\<exists>n t. appendMemStash no_faults ts (Text c) st = Inr (st\<lparr>memstash := Structured n\<rparr>)
           \<and> legacyText n = Some t \<and> (length t \<le> 5000 \<or> newline \<notin> set t)))
   \<and> (\<not> no_keys x \<longrightarrow> getStructuredNotes no_faults st = Inr existing \<longrightarrow>
        length (attempts_of existing) \<le> 5 \<longrightarrow>
        (\<exists>n. mergeStructuredNotes no_faults x st = Inr (st\<lparr>memstash := Structured n\<rparr>)
           \<and> length (attempts_of n) \<le> 5))"
proof (intro conjI impI)
  show "\<exists>s. getMemStashForPrompt f st = Inr s \<and> length s \<le> 1000"
    by (rule prompt_projection_bounded)
next
  assume c: "c \<noteq> []" "trim c \<noteq> []"
  obtain ex where ex: "getStructuredNotes no_faults st = Inr ex"
    using getStructuredNotes_returns by blast
  let ?t = "legacy_update ts c ex"
  have "appendMemStash no_faults ts (Text c) st
          = Inr (st\<lparr>memstash := Structured (ex\<lparr>legacyText := Some ?t\<rparr>)\<rparr>)"
    using c ex by (simp add: appendMemStash_def redis_set_memstash_def no_faults_def)
  moreover have "length ?t \<le> 5000 \<or> newline \<notin> set ?t"
    using legacy_update_bounded[of ts c ex] by (simp add: MEMSTASH_MAX_TOTAL_def)
  ultimately show "\<exists>n t. appendMemStash no_faults ts (Text c) st
          = Inr (st\<lparr>memstash := Structured n\<rparr>)
           \<and> legacyText n = Some t \<and> (length t \<le> 5000 \<or> newline \<notin> set t)"
    by (intro exI[of _ "ex\<lparr>legacyText := Some ?t\<rparr>"] exI[of _ ?t]) simp
next
  assume "\<not> no_keys x" "getStructuredNotes no_faults st = Inr existing"
    "length (attempts_of existing) \<le> 5"
  then show "\<exists>n. mergeStructuredNotes no_faults x st = Inr (st\<lparr>memstash := Structured n\<rparr>)
           \<and> length (attempts_of n) \<le> 5"
    by (intro exI[of _ "merge_fields existing x"])
       (simp add: mergeStructuredNotes_def redis_set_memstash_def no_faults_def
          merge_fields_attempts)
qed

lemma notes_chars_simps:
  "notes_chars \<lparr> currentObjective = a, lastKnownLocation = b, exitFound = c,
      stuckMode = m, failedAttempts = fa, importantDiscovery = d, general = g,
      legacyText = l \<rparr>
   = length (str_of a) + length (str_of b) + length (str_of c)
     + sum_list (map length (case fa of Val ea \<Rightarrow> ea | _ \<Rightarrow> []))
     + length (str_of d) + length (str_of g)
     + (case l of Some s \<Rightarrow> length s | None \<Rightarrow> 0)"
  by (simp add: notes_chars_def attempts_of_def)

text \<open>
  Claim C8, evaluated on an empty store. \<^verbatim>\<open>MEMSTASH_MAX_TOTAL\<close> ("max total
  characters stored") is 5000 and the legacy branch of \<^verbatim>\<open>appendMemStash\<close> cuts the
  text down to it, but \<^verbatim>\<open>mergeStructuredNotes\<close> never looks at it: three merges that
  each write a different field of 2500 characters leave 7500 characters in the store,
  more than the cap and more than 5 KiB.
\<close>

theorem structured_merge_exceeds_cap:
  "stored_chars three_merges = 7500
   \<and> MEMSTASH_MAX_TOTAL < stored_chars three_merges
   \<and> 5 * 1024 < stored_chars three_merges"
  by (simp add: three_merges_def mergeStructuredNotes_def getStructuredNotes_def
      redis_get_memstash_def redis_set_memstash_def no_faults_def empty_backend_def no_keys_def
      empty_notes_def merge_fields_def overwrite_def Let_def stored_chars_def notes_chars_simps
      str_of_def long_text_def MEMSTASH_MAX_TOTAL_def)

subsection \<open>The card: fields untouched by the single blocks\<close>

lemma press_buttons_keeps [simp]:
  "frameHistory (press_buttons seq s) = frameHistory s"
  "lastFrameHashRef (press_buttons seq s) = lastFrameHashRef s"
  "cardConfidenceScores (press_buttons seq s) = cardConfidenceScores s"
  "lastButtonRef (press_buttons seq s) = lastButtonRef s"
  "noChangeCountRef (press_buttons seq s) = noChangeCountRef s"
  "buttonsToAvoid (press_buttons seq s) = buttonsToAvoid s"
  by (induction seq arbitrary: s; simp add: Let_def)+

lemma track_consecutive_keeps [simp]:
  "frameHistory (track_consecutive b s) = frameHistory s"
  "lastFrameHashRef (track_consecutive b s) = lastFrameHashRef s"
  "cardConfidenceScores (track_consecutive b s) = cardConfidenceScores s"
  "lastButtonRef (track_consecutive b s) = lastButtonRef s"
  "noChangeCountRef (track_consecutive b s) = noChangeCountRef s"
  "buttonsToAvoid (track_consecutive b s) = buttonsToAvoid s"
  "bannedButtons (track_consecutive b s) = bannedButtons s"
  "buttonPressCountRef (track_consecutive b s) = buttonPressCountRef s"
  by (simp_all add: track_consecutive_def)

lemma update_scores_keeps [simp]:
  "frameHistory (update_scores vc d s) = frameHistory s"
  "lastFrameHashRef (update_scores vc d s) = lastFrameHashRef s"
  "lastButtonRef (update_scores vc d s) = lastButtonRef s"
  "bannedButtons (update_scores vc d s) = bannedButtons s"
  "buttonPressCountRef (update_scores vc d s) = buttonPressCountRef s"
  by (simp_all add: update_scores_def Let_def split: option.splits)

lemma processFrame_history:
  assumes "is_valid_frame (Some fr)"
  shows "frameHistory (processFrame now (Some fr) (Inr d) s) =
           slice_last 24 (frameHistory s) @
             [\<lparr> fh_button = button d, fh_reasoning = take 200 (reasoning d),
                fh_timestamp = now, frameHash = simpleFrameHash fr,
                visualChange = classify_change (lastFrameHashRef s) (simpleFrameHash fr) \<rparr>]"
    and "lastFrameHashRef (processFrame now (Some fr) (Inr d) s) = Some (simpleFrameHash fr)"
    and "lastButtonRef (processFrame now (Some fr) (Inr d) s) = Some (button d)"
  using assms by (simp_all add: processFrame_def Let_def)

subsection \<open>Frame fingerprint and change detection\<close>

lemma hash_loop_agree:
  assumes agree: "\<forall>j. j mod 1000 = 0 \<longrightarrow> ((j < length p1) = (j < length p2))
             \<and> (j < length p1 \<longrightarrow> p1 ! j = p2 ! j)"
    and "i mod 1000 = 0"
  shows "hash_loop p1 i h = hash_loop p2 i h"
  using assms(2)
proof (induction "length p1 - i" arbitrary: i h rule: less_induct)
  case less
  from agree less.prems have ab: "(i < length p1) = (i < length p2)
      \<and> (i < length p1 \<longrightarrow> p1 ! i = p2 ! i)"
    by (elim allE[of _ i]) simp
  then have a: "(i < length p1) = (i < length p2)"
    and b: "i < length p1 \<Longrightarrow> p1 ! i = p2 ! i"
    by simp_all
  show ?case
  proof (cases "i < length p1")
    case True
    have c1: "(i + 1000) mod 1000 = 0" using less.prems by simp
    have c2: "length p1 - (i + 1000) < length p1 - i" using True by simp
    have "hash_loop p1 (i + 1000) h' = hash_loop p2 (i + 1000) h'" for h'
      by (rule less.hyps[OF c2 c1])
    with True a b show ?thesis
      by (subst (1 2) hash_loop.simps) simp
  next
    case False
    with a show ?thesis
      by (subst (1 2) hash_loop.simps) simp
  qed
qed

text \<open>
  Claim C6. Two frames whose payloads have their sampled positions (0, 1000, 2000, ...)
  in common and carry the same character at each of them have the same fingerprint.
  And when a valid frame follows a valid frame with the same fingerprint, the entry that
  \<^verbatim>\<open>processFrame\<close> adds to the frame history for the second one says \<open>no_change\<close>.
\<close>

theorem fingerprint_of_samples:
  "((\<forall>j. j mod 1000 = 0 \<longrightarrow>
        ((j < length (payload f1)) = (j < length (payload f2)))
        \<and> (j < length (payload f1) \<longrightarrow> payload f1 ! j = payload f2 ! j))
     \<longrightarrow> simpleFrameHash f1 = simpleFrameHash f2)
   \<and> (is_valid_frame (Some f1) \<longrightarrow> is_valid_frame (Some f2) \<longrightarrow>
        simpleFrameHash f1 = simpleFrameHash f2 \<longrightarrow>
        visualChange (last (frameHistory
          (processFrame n2 (Some f2) (Inr d2) (processFrame n1 (Some f1) (Inr d1) s))))
        = No_change)"
proof (intro conjI impI)
  assume "\<forall>j. j mod 1000 = 0 \<longrightarrow>
        ((j < length (payload f1)) = (j < length (payload f2)))
        \<and> (j < length (payload f1) \<longrightarrow> payload f1 ! j = payload f2 ! j)"
  then have "hash_loop (payload f1) 0 0 = hash_loop (payload f2) 0 0"
    by (intro hash_loop_agree) auto
  then show "simpleFrameHash f1 = simpleFrameHash f2"
    by (simp add: simpleFrameHash_def)
next
  assume "is_valid_frame (Some f1)" "is_valid_frame (Some f2)"
    "simpleFrameHash f1 = simpleFrameHash f2"
  then show "visualChange (last (frameHistory
          (processFrame n2 (Some f2) (Inr d2) (processFrame n1 (Some f1) (Inr d1) s))))
        = No_change"
    by (simp add: processFrame_history classify_change_def)
qed


lemma split_on_no_sep: "c \<notin> set s \<Longrightarrow> split_on c s = [s]"
  by (induction s) auto

lemma split_on_append: "c \<notin> set a \<Longrightarrow> split_on c (a @ c # b) = a # split_on c b"
  by (induction a) auto

lemma payload_data_url:
  "CHR '','' \<notin> set pre \<Longrightarrow> CHR '','' \<notin> set p \<Longrightarrow> payload (pre @ CHR '','' # p) = p"
  by (simp add: payload_def split_on_append split_on_no_sep)

lemma payload_frames:
  "payload frame_a = CHR ''A'' # replicate 1100 CHR ''x''"
  "payload frame_b = CHR ''A'' # replicate 999 CHR ''y'' @ CHR ''x'' # replicate 100 CHR ''y''"
  unfolding frame_a_def frame_b_def by (rule payload_data_url; simp)+

lemma frames_valid: "is_valid_frame (Some frame_a)" "is_valid_frame (Some frame_b)"
  by (simp_all add: is_valid_frame_def frame_a_def frame_b_def)

lemma frames_differ: "frame_a \<noteq> frame_b"
proof
  assume "frame_a = frame_b"
  then have "frame_a ! 23 = frame_b ! 23" by simp
  then show False by (simp add: frame_a_def frame_b_def nth_append)
qed

lemma frames_agree:
  "\<forall>j. j mod 1000 = 0 \<longrightarrow>
        ((j < length (payload frame_a)) = (j < length (payload frame_b)))
        \<and> (j < length (payload frame_a) \<longrightarrow> payload frame_a ! j = payload frame_b ! j)"
proof (intro allI impI conjI)
  fix j :: nat
  show "(j < length (payload frame_a)) = (j < length (payload frame_b))"
    by (simp add: payload_frames)
  assume "j mod 1000 = 0" "j < length (payload frame_a)"
  then have "j = 0 \<or> j = 1000"
    by (auto simp: payload_frames)
  then show "payload frame_a ! j = payload frame_b ! j"
    by (auto simp: payload_frames nth_append)
qed

theorem fingerprint_of_samples_witness:
  "length (payload frame_a) = 1101 \<and> length (payload frame_b) = 1101
   \<and> payload frame_a ! 0 = payload frame_b ! 0
   \<and> payload frame_a ! 1000 = payload frame_b ! 1000
   \<and> is_valid_frame (Some frame_a) \<and> is_valid_frame (Some frame_b)
   \<and> frame_a \<noteq> frame_b
   \<and> simpleFrameHash frame_a = simpleFrameHash frame_b
   \<and> visualChange (last (frameHistory
          (processFrame 2 (Some frame_b) (Inr (press Btn_UP))
             (processFrame 1 (Some frame_a) (Inr (press Btn_UP)) initial_card))))
        = No_change"
proof -
  note t = fingerprint_of_samples[of frame_a frame_b 2 "press Btn_UP" 1 "press Btn_UP" initial_card]
  have len: "length (payload frame_a) = 1101" "length (payload frame_b) = 1101"
    by (simp_all add: payload_frames)
  have pos: "payload frame_a ! 0 = payload frame_b ! 0"
    "payload frame_a ! 1000 = payload frame_b ! 1000"
    by (simp_all add: payload_frames nth_append)
  from t frames_agree have eq: "simpleFrameHash frame_a = simpleFrameHash frame_b"
    by blast
  with t frames_valid have "visualChange (last (frameHistory
          (processFrame 2 (Some frame_b) (Inr (press Btn_UP))
             (processFrame 1 (Some frame_a) (Inr (press Btn_UP)) initial_card))))
        = No_change"
    by blast
  with len pos frames_valid frames_differ eq show ?thesis by blast
qed

subsection \<open>No-change penalty\<close>

lemma run_card_append: "run_card (xs @ ys) s = run_card ys (run_card xs s)"
  by (induction xs arbitrary: s) auto

lemma outcomes_append: "outcomes (xs @ ys) s = outcomes xs s @ outcomes ys (run_card xs s)"
  by (induction xs arbitrary: s) auto

lemma processFrame_not_processed:
  "\<not> processed frame response \<Longrightarrow> processFrame now frame response s = s"
  by (auto simp: processed_def processFrame_def is_valid_frame_def split: option.splits sum.splits)

lemma processFrame_processed:
  assumes "processed frame response"
  shows "noChangeCountRef (processFrame now frame response s) b
           = spec_count_outcome b (noChangeCountRef s b) (outcome_of frame s)"
    and "avoid_invariant s \<Longrightarrow> avoid_invariant (processFrame now frame response s)"
    and "fst (outcome_of frame s) = Some b \<Longrightarrow> snd (outcome_of frame s) = No_change \<Longrightarrow>
         noChangeCountRef s b \<ge> 4 \<Longrightarrow>
         map_of (cardConfidenceScores (processFrame now frame response s)) b = Some (2 / 10)"
    and "fst (outcome_of frame s) = Some b \<Longrightarrow> snd (outcome_of frame s) = Change_detected \<Longrightarrow>
         b \<notin> set (buttonsToAvoid (processFrame now frame response s))"
proof -
  from assms obtain fr d where fr: "frame = Some fr" "response = Inr d" "is_valid_frame (Some fr)"
    by (auto simp: processed_def is_valid_frame_def split: option.splits sum.splits)
  let ?vc = "classify_change (lastFrameHashRef s) (simpleFrameHash fr)"
  let ?s1 = "s\<lparr>lastFrameHashRef := Some (simpleFrameHash fr),
                      frameHistory := slice_last 24 (frameHistory s) @
                        [\<lparr> fh_button = button d, fh_reasoning = take 200 (reasoning d),
                           fh_timestamp = now, frameHash = simpleFrameHash fr,
                           visualChange = ?vc \<rparr>]\<rparr>"
  have n: "noChangeCountRef (processFrame now frame response s) = noChangeCountRef (update_scores ?vc d ?s1)"
    and a: "buttonsToAvoid (processFrame now frame response s) = buttonsToAvoid (update_scores ?vc d ?s1)"
    and c: "cardConfidenceScores (processFrame now frame response s) = cardConfidenceScores (update_scores ?vc d ?s1)"
    using fr by (simp_all add: processFrame_def Let_def)
  show "noChangeCountRef (processFrame now frame response s) b
           = spec_count_outcome b (noChangeCountRef s b) (outcome_of frame s)"
    unfolding n using fr
    by (auto simp: update_scores_def spec_count_outcome_def outcome_of_def Let_def
        split: option.splits)
  show "avoid_invariant (processFrame now frame response s)" if "avoid_invariant s"
    using that unfolding avoid_invariant_def n a
    by (auto simp: update_scores_def Let_def split: option.splits if_splits)
  show "map_of (cardConfidenceScores (processFrame now frame response s)) b = Some (2 / 10)"
    if "fst (outcome_of frame s) = Some b" "snd (outcome_of frame s) = No_change"
      "noChangeCountRef s b \<ge> 4"
    using that fr unfolding c
    by (simp add: update_scores_def outcome_of_def Let_def update_conv)
  show "b \<notin> set (buttonsToAvoid (processFrame now frame response s))"
    if "fst (outcome_of frame s) = Some b" "snd (outcome_of frame s) = Change_detected"
    using that fr unfolding a
    by (simp add: update_scores_def outcome_of_def Let_def)
qed


lemma run_card_count:
  "noChangeCountRef (run_card ins s) b
     = foldl (spec_count_outcome b) (noChangeCountRef s b) (outcomes ins s)"
proof (induction ins arbitrary: s)
  case Nil
  then show ?case by simp
next
  case (Cons x ins)
  obtain now frame response where x: "x = (now, frame, response)" by (cases x)
  show ?case
  proof (cases "processed frame response")
    case True
    with Cons show ?thesis
      by (simp add: x processFrame_processed(1))
  next
    case False
    with Cons show ?thesis
      by (simp add: x processFrame_not_processed)
  qed
qed

lemma avoid_invariant_initial: "avoid_invariant initial_card"
  by (simp add: avoid_invariant_def initial_card_def)

lemma run_card_invariant: "avoid_invariant s \<Longrightarrow> avoid_invariant (run_card ins s)"
proof (induction ins arbitrary: s)
  case Nil
  then show ?case by simp
next
  case (Cons x ins)
  obtain now frame response where x: "x = (now, frame, response)" by (cases x)
  have "avoid_invariant (processFrame now frame response s)"
    using Cons.prems processFrame_processed(2)[of frame response s now]
      processFrame_not_processed[of frame response now s]
    by (cases "processed frame response") auto
  with Cons.IH show ?case by (simp add: x)
qed

lemma penalty_after_last_outcome:
  assumes "outcomes ins s0 \<noteq> []" "avoid_invariant s0"
  shows "last (outcomes ins s0) = (Some b, No_change) \<Longrightarrow>
           5 \<le> noChangeCountRef (run_card ins s0) b \<Longrightarrow>
           map_of (cardConfidenceScores (run_card ins s0)) b = Some (2 / 10)
           \<and> b \<in> set (buttonsToAvoid (run_card ins s0))"
    and "last (outcomes ins s0) = (Some b, Change_detected) \<Longrightarrow>
           noChangeCountRef (run_card ins s0) b = 0
           \<and> b \<notin> set (buttonsToAvoid (run_card ins s0))"
  using assms(1)
proof (induction ins rule: rev_induct)
  case Nil
  { case 1 then show ?case by simp }
  { case 2 then show ?case by simp }
next
  case (snoc x ins)
  obtain now frame response where x: "x = (now, frame, response)" by (cases x)
  let ?s = "run_card ins s0"
  have run: "run_card (ins @ [x]) s0 = processFrame now frame response ?s"
    by (simp add: run_card_append x)
  have inv: "avoid_invariant (run_card (ins @ [x]) s0)"
    using assms(2) by (rule run_card_invariant)
  {
    case 1
    show ?case
    proof (cases "processed frame response")
      case True
      then have os: "outcomes (ins @ [x]) s0 = outcomes ins s0 @ [outcome_of frame ?s]"
        by (simp add: outcomes_append x)
      with 1(1) have oc: "outcome_of frame ?s = (Some b, No_change)" by simp
      from 1(2) have "5 \<le> spec_count_outcome b (noChangeCountRef ?s b) (outcome_of frame ?s)"
        by (simp add: run processFrame_processed(1)[OF True])
      with oc have "4 \<le> noChangeCountRef ?s b"
        by (simp add: spec_count_outcome_def)
      with oc processFrame_processed(3)[OF True, of ?s b now]
      have "map_of (cardConfidenceScores (run_card (ins @ [x]) s0)) b = Some (2 / 10)"
        by (simp add: run)
      moreover from inv 1(2) have "b \<in> set (buttonsToAvoid (run_card (ins @ [x]) s0))"
        by (auto simp: avoid_invariant_def)
      ultimately show ?thesis by simp
    next
      case False
      then have "outcomes (ins @ [x]) s0 = outcomes ins s0"
        "run_card (ins @ [x]) s0 = run_card ins s0"
        by (simp_all add: outcomes_append run_card_append x processFrame_not_processed)
      with snoc.IH(1) 1 show ?thesis by simp
    qed
  next
    case 2
    show ?case
    proof (cases "processed frame response")
      case True
      then have os: "outcomes (ins @ [x]) s0 = outcomes ins s0 @ [outcome_of frame ?s]"
        by (simp add: outcomes_append x)
      with 2(1) have oc: "outcome_of frame ?s = (Some b, Change_detected)" by simp
      with processFrame_processed(1)[OF True, of now ?s b]
        processFrame_processed(4)[OF True, of ?s b now]
      show ?thesis
        by (simp add: run spec_count_outcome_def)
    next
      case False
      then have "outcomes (ins @ [x]) s0 = outcomes ins s0"
        "run_card (ins @ [x]) s0 = run_card ins s0"
        by (simp_all add: outcomes_append run_card_append x processFrame_not_processed)
      with snoc.IH(2) 2 show ?thesis by simp
    qed
  }
qed


lemma stuck_run_state:
  "lastButtonRef (processFrame n (Some frame_a) (Inr (press Btn_RIGHT)) s) = Some Btn_RIGHT"
  "lastFrameHashRef (processFrame n (Some frame_a) (Inr (press Btn_RIGHT)) s)
     = Some (simpleFrameHash frame_a)"
  by (simp_all add: processFrame_history frames_valid press_def)

lemma payload_frame_c: "payload frame_c = CHR ''B'' # replicate 1100 CHR ''x''"
  unfolding frame_c_def by (rule payload_data_url; simp)

lemma hash_a: "hash_loop (payload frame_a) 0 0 = 2135"
  by (simp add: payload_frames hash_loop.simps)

lemma hash_c: "hash_loop (payload frame_c) 0 0 = 2166"
  by (simp add: payload_frame_c hash_loop.simps)

lemma fp_a: "simpleFrameHash frame_a = ''857''"
  by (simp add: simpleFrameHash_def hash_a toString16_def to_hex.simps hex_digit_def)

lemma fp_c: "simpleFrameHash frame_c = ''876''"
  by (simp add: simpleFrameHash_def hash_c toString16_def to_hex.simps hex_digit_def)

lemma outcomes_observed:
  "remembers s prev \<Longrightarrow> outcomes ins s = observed prev ins"
proof (induction ins arbitrary: s prev)
  case Nil
  then show ?case by simp
next
  case (Cons x ins)
  obtain now frame response where x: "x = (now, frame, response)" by (cases x)
  show ?case
  proof (cases "processed frame response")
    case True
    then obtain fr d where fr: "frame = Some fr" "response = Inr d" "is_valid_frame (Some fr)"
      by (auto simp: processed_def is_valid_frame_def split: option.splits sum.splits)
    have "remembers (processFrame now frame response s) (Some (button d, simpleFrameHash fr))"
      using fr by (simp add: remembers_def processFrame_history)
    from Cons.IH[OF this] Cons.prems True fr show ?thesis
      by (auto simp: x outcome_of_def classify_change_def remembers_def split: option.splits)
  next
    case False
    then have same: "processFrame now frame response s = s"
      by (rule processFrame_not_processed)
    from False have "observed prev (x # ins) = observed prev ins"
      by (auto simp: x processed_def split: option.splits sum.splits)
    with Cons.IH[OF Cons.prems] False same show ?thesis
      by (simp add: x)
  qed
qed

lemma outcomes_initial: "outcomes ins initial_card = observed None ins"
  by (rule outcomes_observed) (simp add: remembers_def initial_card_def)

text \<open>
  Claim C5, as the code has it. The card registers an outcome when the answer to the
  request that carried the frame has come back. In every run of a fresh (or reset) card
  the counter kept for a button is the no-change streak of the specification over the
  outcomes registered so far. When the last outcome registered is a \<open>no_change\<close>
  attributed to \<open>b\<close> and brings the streak of \<open>b\<close> to five or more, the request built
  next reports \<open>b\<close> at no more than 0.20 in its previous-confidence table and lists
  \<open>b\<close> among the buttons to avoid; \<open>b\<close> is on that list as soon as its streak is at
  least one. When the last outcome registered is a \<open>change_detected\<close> attributed to
  \<open>b\<close>, the counter of \<open>b\<close> is 0 and \<open>b\<close> is not among the buttons to avoid.
\<close>

theorem no_change_penalty:
  "noChangeCountRef (run_card ins initial_card) b = spec_no_change_streak b (observed None ins)
   \<and> (observed None ins \<noteq> [] \<longrightarrow>
        last (observed None ins) = (Some b, No_change) \<longrightarrow>
        5 \<le> spec_no_change_streak b (observed None ins) \<longrightarrow>
        (\<exists>v. map_of (previousConfidenceScores (build_request (run_card ins initial_card))) b = Some v
             \<and> v \<le> 20 / 100)
        \<and> b \<in> set (req_buttonsToAvoid (build_request (run_card ins initial_card))))
   \<and> (1 \<le> spec_no_change_streak b (observed None ins) \<longrightarrow>
        b \<in> set (req_buttonsToAvoid (build_request (run_card ins initial_card))))
   \<and> (observed None ins \<noteq> [] \<longrightarrow>
        last (observed None ins) = (Some b, Change_detected) \<longrightarrow>
        noChangeCountRef (run_card ins initial_card) b = 0
        \<and> b \<notin> set (req_buttonsToAvoid (build_request (run_card ins initial_card))))"
proof -
  have cnt: "noChangeCountRef (run_card ins initial_card) b
     = spec_no_change_streak b (observed None ins)"
    by (simp add: run_card_count spec_no_change_streak_def initial_card_def
        outcomes_initial[symmetric])
  have req: "previousConfidenceScores (build_request s) = cardConfidenceScores s"
    "req_buttonsToAvoid (build_request s) = buttonsToAvoid s" for s
    by (simp_all add: build_request_def)
  have pen: "(\<exists>v. map_of (cardConfidenceScores (run_card ins initial_card)) b = Some v
             \<and> v \<le> 20 / 100)
        \<and> b \<in> set (buttonsToAvoid (run_card ins initial_card))"
    if "observed None ins \<noteq> []"
      "last (observed None ins) = (Some b, No_change)"
      "5 \<le> spec_no_change_streak b (observed None ins)"
  proof -
    from that(3) cnt have five: "5 \<le> noChangeCountRef (run_card ins initial_card) b" by simp
    from that(1,2) have o: "outcomes ins initial_card \<noteq> []"
      "last (outcomes ins initial_card) = (Some b, No_change)"
      by (simp_all add: outcomes_initial)
    from penalty_after_last_outcome(1)[OF o(1) avoid_invariant_initial o(2) five]
    have "map_of (cardConfidenceScores (run_card ins initial_card)) b = Some (2 / 10)"
      and "b \<in> set (buttonsToAvoid (run_card ins initial_card))"
      by simp_all
    moreover have "(2 / 10 :: rat) \<le> 20 / 100" by simp
    ultimately show ?thesis by blast
  qed
  have avoid: "b \<in> set (buttonsToAvoid (run_card ins initial_card))"
    if "1 \<le> spec_no_change_streak b (observed None ins)"
  proof -
    have "avoid_invariant (run_card ins initial_card)"
      using avoid_invariant_initial by (rule run_card_invariant)
    with that cnt show ?thesis by (simp add: avoid_invariant_def)
  qed
  have clr: "noChangeCountRef (run_card ins initial_card) b = 0
        \<and> b \<notin> set (buttonsToAvoid (run_card ins initial_card))"
    if "observed None ins \<noteq> []"
      "last (observed None ins) = (Some b, Change_detected)"
  proof -
    from that have o: "outcomes ins initial_card \<noteq> []"
      "last (outcomes ins initial_card) = (Some b, Change_detected)"
      by (simp_all add: outcomes_initial)
    from penalty_after_last_outcome(2)[OF o(1) avoid_invariant_initial o(2)] show ?thesis .
  qed
  show ?thesis
    using cnt pen avoid clr unfolding req by blast
qed

lemma stuck_run_observed:
  "observed None stuck_run =
     [(None, First_frame), (Some Btn_RIGHT, No_change), (Some Btn_RIGHT, No_change),
      (Some Btn_RIGHT, No_change), (Some Btn_RIGHT, No_change), (Some Btn_RIGHT, No_change)]"
  by (simp add: stuck_run_def frames_valid press_def)

lemma unstuck_run_observed:
  "observed None unstuck_run =
     [(None, First_frame), (Some Btn_RIGHT, No_change), (Some Btn_RIGHT, No_change),
      (Some Btn_RIGHT, No_change), (Some Btn_RIGHT, No_change), (Some Btn_RIGHT, No_change),
      (Some Btn_RIGHT, Change_detected)]"
proof -
  have "is_valid_frame (Some frame_c)"
    by (simp add: is_valid_frame_def frame_c_def)
  then show ?thesis
    by (simp add: unstuck_run_def stuck_run_def frames_valid press_def fp_a fp_c)
qed

theorem no_change_penalty_witness:
  "observed None stuck_run \<noteq> []
   \<and> last (observed None stuck_run) = (Some Btn_RIGHT, No_change)
   \<and> 5 \<le> spec_no_change_streak Btn_RIGHT (observed None stuck_run)
   \<and> (\<exists>v. map_of (previousConfidenceScores (build_request (run_card stuck_run initial_card)))
              Btn_RIGHT = Some v \<and> v \<le> 20 / 100)
   \<and> Btn_RIGHT \<in> set (req_buttonsToAvoid (build_request (run_card stuck_run initial_card)))
   \<and> noChangeCountRef (run_card stuck_run initial_card) Btn_RIGHT = 5
   \<and> observed None unstuck_run \<noteq> []
   \<and> last (observed None unstuck_run) = (Some Btn_RIGHT, Change_detected)
   \<and> noChangeCountRef (run_card unstuck_run initial_card) Btn_RIGHT = 0
   \<and> Btn_RIGHT \<notin> set (req_buttonsToAvoid (build_request (run_card unstuck_run initial_card)))"
proof -
  have h1: "observed None stuck_run \<noteq> []"
    and h2: "last (observed None stuck_run) = (Some Btn_RIGHT, No_change)"
    and h3: "spec_no_change_streak Btn_RIGHT (observed None stuck_run) = 5"
    by (simp_all add: stuck_run_observed spec_no_change_streak_def spec_count_outcome_def)
  have g1: "observed None unstuck_run \<noteq> []"
    and g2: "last (observed None unstuck_run) = (Some Btn_RIGHT, Change_detected)"
    by (simp_all add: unstuck_run_observed)
  from no_change_penalty[of stuck_run Btn_RIGHT] h1 h2 h3
  have a: "(\<exists>v. map_of (previousConfidenceScores (build_request (run_card stuck_run initial_card)))
              Btn_RIGHT = Some v \<and> v \<le> 20 / 100)
     \<and> Btn_RIGHT \<in> set (req_buttonsToAvoid (build_request (run_card stuck_run initial_card)))
     \<and> noChangeCountRef (run_card stuck_run initial_card) Btn_RIGHT = 5"
    by simp
  from no_change_penalty[of unstuck_run Btn_RIGHT] g1 g2
  have b: "noChangeCountRef (run_card unstuck_run initial_card) Btn_RIGHT = 0
     \<and> Btn_RIGHT \<notin> set (req_buttonsToAvoid (build_request (run_card unstuck_run initial_card)))"
    by blast
  from h1 h2 h3 g1 g2 a b show ?thesis by simp
qed

lemma processFrame_scores_unpenalised:
  assumes "is_valid_frame (Some fr)" "lastButtonRef s = Some b" "noChangeCountRef s b < 4"
  shows "cardConfidenceScores (processFrame now (Some fr) (Inr d) s) = confidenceScores d"
  using assms
  by (simp add: processFrame_def Let_def update_scores_def)

text \<open>
  Claim C5 as stated puts the penalty on the prompt that follows the fifth no-change.
  RIGHT is pressed five times on one and the same frame, and the sixth frame is that
  frame again, so five presses in a row changed nothing. The sixth request, built from
  the card after the five iterations, still reports RIGHT at 0.9: the fifth no-change is
  registered only when the answer to that request is processed.
\<close>

theorem no_change_penalty_counterexample:
  "stuck_run = stuck_five @ [(6, Some frame_a, Inr (press Btn_RIGHT))]
   \<and> observed None stuck_run =
       [(None, First_frame), (Some Btn_RIGHT, No_change), (Some Btn_RIGHT, No_change),
        (Some Btn_RIGHT, No_change), (Some Btn_RIGHT, No_change), (Some Btn_RIGHT, No_change)]
   \<and> map_of (previousConfidenceScores (build_request (run_card stuck_five initial_card)))
        Btn_RIGHT = Some (9 / 10)
   \<and> \<not> (9 / 10 \<le> (20 / 100 :: rat))"
proof -
  let ?four = "map (\<lambda>n. (n, Some frame_a, Inr (press Btn_RIGHT))) [1, 2, 3, 4 :: nat]"
  let ?s4 = "run_card ?four initial_card"
  have split: "stuck_five = ?four @ [(5, Some frame_a, Inr (press Btn_RIGHT))]"
    by (simp add: stuck_five_def)
  have ob4: "observed None ?four =
     [(None, First_frame), (Some Btn_RIGHT, No_change), (Some Btn_RIGHT, No_change),
      (Some Btn_RIGHT, No_change)]"
    by (simp add: frames_valid press_def)
  have c4: "noChangeCountRef ?s4 Btn_RIGHT = 3"
    unfolding run_card_count outcomes_initial ob4
    by (simp add: initial_card_def spec_count_outcome_def)
  have l4: "lastButtonRef ?s4 = Some Btn_RIGHT"
    by (simp add: stuck_run_state)
  have "cardConfidenceScores (run_card stuck_five initial_card) = confidenceScores (press Btn_RIGHT)"
    unfolding split run_card_append
    using processFrame_scores_unpenalised[OF frames_valid(1) l4, of 5 "press Btn_RIGHT"] c4
    by simp
  then have "map_of (previousConfidenceScores (build_request (run_card stuck_five initial_card)))
        Btn_RIGHT = Some (9 / 10)"
    by (simp add: build_request_def press_def update_conv)
  then show ?thesis
    by (simp add: stuck_run_observed) (simp add: stuck_run_def stuck_five_def)
qed

subsection \<open>Ban policy\<close>

lemma press_buttons_cong:
  "bannedButtons s = bannedButtons s' \<Longrightarrow> buttonPressCountRef s = buttonPressCountRef s' \<Longrightarrow>
   bannedButtons (press_buttons seq s) = bannedButtons (press_buttons seq s')
   \<and> buttonPressCountRef (press_buttons seq s) = buttonPressCountRef (press_buttons seq s')"
proof (induction seq arbitrary: s s')
  case Nil
  then show ?case by simp
next
  case (Cons stp seq)
  show ?case
    unfolding press_buttons.simps Let_def
    by (rule Cons.IH) (simp_all add: Cons.prems)
qed

lemma processFrame_ban:
  assumes "is_valid_frame (Some fr)"
  shows "bannedButtons (processFrame now (Some fr) (Inr d) s)
           = decrement_banned (bannedButtons (press_buttons
               (case buttonSequence d of Some steps \<Rightarrow> steps | None \<Rightarrow> [(button d, confidence d)]) s))"
    and "buttonPressCountRef (processFrame now (Some fr) (Inr d) s)
           = buttonPressCountRef (press_buttons
               (case buttonSequence d of Some steps \<Rightarrow> steps | None \<Rightarrow> [(button d, confidence d)]) s)"
proof -
  let ?seq = "case buttonSequence d of Some steps \<Rightarrow> steps | None \<Rightarrow> [(button d, confidence d)]"
  let ?vc = "classify_change (lastFrameHashRef s) (simpleFrameHash fr)"
  let ?s4 = "track_consecutive (button d)
     ((update_scores ?vc d
        (s\<lparr>lastFrameHashRef := Some (simpleFrameHash fr),
                      frameHistory := slice_last 24 (frameHistory s) @
                        [\<lparr> fh_button = button d, fh_reasoning = take 200 (reasoning d),
                           fh_timestamp = now, frameHash = simpleFrameHash fr,
                           visualChange = ?vc \<rparr>]\<rparr>))\<lparr>lastButtonRef := Some (button d)\<rparr>)"
  have pf: "processFrame now (Some fr) (Inr d) s
      = (press_buttons ?seq ?s4)\<lparr>bannedButtons := decrement_banned (bannedButtons (press_buttons ?seq ?s4))\<rparr>"
    using assms by (simp add: processFrame_def Let_def)
  have "bannedButtons ?s4 = bannedButtons s" "buttonPressCountRef ?s4 = buttonPressCountRef s"
    by simp_all
  from press_buttons_cong[OF this, of ?seq] show
    "bannedButtons (processFrame now (Some fr) (Inr d) s)
           = decrement_banned (bannedButtons (press_buttons ?seq s))"
    "buttonPressCountRef (processFrame now (Some fr) (Inr d) s)
           = buttonPressCountRef (press_buttons ?seq s)"
    unfolding pf by simp_all
qed

lemma presses_Suc: "presses (Suc k) = presses k @ [(k, Some frame_a, Inr (press Btn_A))]"
  by (simp add: presses_def)

lemma presses_below_ten:
  "k \<le> 9 \<Longrightarrow> bannedButtons (run_card (presses k) initial_card) = []
     \<and> buttonPressCountRef (run_card (presses k) initial_card) Btn_A = k"
proof (induction k)
  case 0
  then show ?case by (simp add: presses_def initial_card_def)
next
  case (Suc k)
  then have "bannedButtons (run_card (presses k) initial_card) = []"
    "buttonPressCountRef (run_card (presses k) initial_card) Btn_A = k" "k < 9"
    by simp_all
  then show ?case
    by (simp add: presses_Suc run_card_append processFrame_ban frames_valid press_def Let_def
        decrement_banned_def)
qed

lemma presses_other_button:
  "b \<noteq> Btn_A \<Longrightarrow> buttonPressCountRef (run_card (presses k) initial_card) b = 0"
proof (induction k)
  case 0
  then show ?case by (simp add: presses_def initial_card_def)
next
  case (Suc k)
  then show ?case
    by (simp add: presses_Suc run_card_append processFrame_ban frames_valid press_def Let_def)
qed

text \<open>
  Claim C4, evaluated on a fresh card. After nine presses of A nothing is banned. The
  tenth press resets the counter of A and the request that follows lists A as banned.
  One iteration later (the answer is B) the request no longer lists A: the ban is
  entered with the value 2 and decremented at the end of the same call of
  \<^verbatim>\<open>processFrame\<close>, so it reaches one prompt, not the two that the claim and the comment
  in the source ("ban it for next 2 prompts") announce.
\<close>

theorem ban_covers_one_prompt:
  "req_bannedButtons (build_request (run_card (presses 9) initial_card)) = []
   \<and> req_bannedButtons (build_request (run_card (presses 10) initial_card)) = [Btn_A]
   \<and> buttonPressCountRef (run_card (presses 10) initial_card) Btn_A = 0
   \<and> req_bannedButtons (build_request
        (run_card (presses 10 @ [(10, Some frame_a, Inr (press Btn_B))]) initial_card)) = []"
proof -
  have nine: "bannedButtons (run_card (presses 9) initial_card) = []"
    "buttonPressCountRef (run_card (presses 9) initial_card) Btn_A = 9"
    using presses_below_ten[of 9] by simp_all
  have ten: "presses 10 = presses 9 @ [(9, Some frame_a, Inr (press Btn_A))]"
    using presses_Suc[of 9] by simp
  have b10: "bannedButtons (run_card (presses 10) initial_card) = [(Btn_A, 1)]"
    and c10: "buttonPressCountRef (run_card (presses 10) initial_card) Btn_A = 0"
    using nine
    by (simp_all add: ten run_card_append processFrame_ban frames_valid press_def Let_def
        decrement_banned_def)
  have b11: "bannedButtons (run_card (presses 10 @ [(10, Some frame_a, Inr (press Btn_B))])
       initial_card) = []"
  proof -
    have "buttonPressCountRef (run_card (presses 10) initial_card) Btn_B = 0"
      by (rule presses_other_button) simp
    with b10 show ?thesis
      by (simp add: run_card_append processFrame_ban frames_valid press_def Let_def
          decrement_banned_def)
  qed
  from nine b10 c10 b11 show ?thesis
    by (simp add: build_request_def)
qed

end
